theory Spec2Isabelle
  imports Main
begin

section \<open>Data model\<close>

text \<open>
  The server keeps two global collections: \<open>waitingUsers\<close> (an array of User objects) and
  \<open>activeUsers\<close> (a Map from socket id to User object). Both hold references to the same
  mutable objects, so the objects live in an explicit store indexed by address, and the
  collections hold addresses. \<open>src/index.ts\<close> and the second source file are the same
  program; the second adds the game events, and is the one embedded here.
\<close>

type_synonym addr = nat

record User =
  idU :: string
  socketId :: string
  interests :: "string list option"
  inChat :: bool
  partnerId :: "string option"

text \<open>
  A value the server puts into an outgoing payload. \<open>Client\<close> wraps a value taken verbatim
  from the inbound event (signal, message, game fields); the others are built by the server.
\<close>

datatype val = Str string | Num nat | Bool bool | Date nat | Client string

datatype payload = NoArg | Arg val | Obj "(string \<times> val) list"

text \<open>A delivery: receiving socket id, event name, payload.\<close>

type_synonym delivery = "string \<times> string \<times> payload"

record state =
  heap :: "addr \<Rightarrow> User"
  nextAddr :: addr
  activeUsers :: "(string \<times> addr) list"
  waitingUsers :: "addr list"
  sockets :: "string list"
  rooms :: "string \<Rightarrow> string list"

text \<open>
  Inbound events. Values produced by the environment while a handler runs are fields of the
  event: the result of \<open>uuidv4()\<close> in the connection and send-message handlers, and of
  \<open>new Date()\<close> in send-message.
\<close>

datatype event =
    Connection string
  | FindPartner "string list option"
  | CancelSearch
  | WebrtcSignal string string
  | SendMessage string string string nat
  | Typing string string
  | RequestGame string string
  | AcceptGame string string
  | DeclineGame string string
  | StartGame string string
  | TicTacToeMove string string string
  | TicTacToePlayAgain string
  | WyrChoice string string
  | WyrNextQuestion string string
  | SkipPartner
  | Disconnect

definition emptyUser :: User where
  "emptyUser = \<lparr>idU = [], socketId = [], interests = None, inChat = False, partnerId = None\<rparr>"

definition init :: state where
  "init = \<lparr>heap = (\<lambda>_. emptyUser), nextAddr = 0, activeUsers = [], waitingUsers = [],
            sockets = [], rooms = (\<lambda>_. [])\<rparr>"

section \<open>JavaScript collections\<close>

text \<open>\<open>Map.set\<close> keeps the position of an existing key and appends a new one.\<close>

fun mapSet :: "(string \<times> 'v) list \<Rightarrow> string \<Rightarrow> 'v \<Rightarrow> (string \<times> 'v) list" where
  "mapSet [] k v = [(k, v)]"
| "mapSet ((k', v') # m) k v = (if k' = k then (k, v) # m else (k', v') # mapSet m k v)"

definition mapGet :: "(string \<times> 'v) list \<Rightarrow> string \<Rightarrow> 'v option" where
  "mapGet m k = map_of m k"

definition mapDelete :: "(string \<times> 'v) list \<Rightarrow> string \<Rightarrow> (string \<times> 'v) list" where
  "mapDelete m k = filter (\<lambda>e. fst e \<noteq> k) m"

text \<open>\<open>Array.findIndex\<close>, and the index loops of \<open>findPartner\<close>: the first index that passes.\<close>

fun findIndex :: "('a \<Rightarrow> bool) \<Rightarrow> 'a list \<Rightarrow> nat option" where
  "findIndex P [] = None"
| "findIndex P (x # xs) = (if P x then Some 0 else map_option Suc (findIndex P xs))"

text \<open>\<open>splice(i, 1)\<close>: the array without the element at index \<open>i\<close>.\<close>

definition splice1 :: "nat \<Rightarrow> 'a list \<Rightarrow> 'a list" where
  "splice1 i xs = take i xs @ drop (Suc i) xs"

text \<open>Truthiness of an optional string: \<open>undefined\<close> and the empty string are falsy.\<close>

definition truthy :: "string option \<Rightarrow> bool" where
  "truthy v = (case v of None \<Rightarrow> False | Some x \<Rightarrow> x \<noteq> [])"

section \<open>The matcher\<close>

definition commonInterests :: "User \<Rightarrow> User \<Rightarrow> string list" where
  "commonInterests user potentialPartner =
     (case interests user of
        None \<Rightarrow> []
      | Some uis \<Rightarrow>
          filter (\<lambda>interest. case interests potentialPartner of
                                None \<Rightarrow> False
                              | Some pis \<Rightarrow> interest \<in> set pis) uis)"

definition hasInterests :: "User \<Rightarrow> bool" where
  "hasInterests user = (case interests user of None \<Rightarrow> False | Some uis \<Rightarrow> 0 < length uis)"

definition interestMatch :: "(addr \<Rightarrow> User) \<Rightarrow> addr \<Rightarrow> addr \<Rightarrow> bool" where
  "interestMatch h user potentialPartner =
     (idU (h potentialPartner) \<noteq> idU (h user) \<and> interests (h potentialPartner) \<noteq> None \<and>
      0 < length (commonInterests (h user) (h potentialPartner)))"

definition otherUser :: "(addr \<Rightarrow> User) \<Rightarrow> addr \<Rightarrow> addr \<Rightarrow> bool" where
  "otherUser h user potentialPartner = (idU (h potentialPartner) \<noteq> idU (h user))"

text \<open>
  \<open>findPartner\<close> returns the chosen User (or null) and leaves \<open>waitingUsers\<close> without it; the
  model returns both.
\<close>

definition findPartner :: "(addr \<Rightarrow> User) \<Rightarrow> addr \<Rightarrow> addr list \<Rightarrow> addr option \<times> addr list" where
  "findPartner h user waiting =
     (case (if hasInterests (h user) then findIndex (interestMatch h user) waiting else None) of
        Some i \<Rightarrow> (Some (waiting ! i), splice1 i waiting)
      | None \<Rightarrow>
          (case findIndex (otherUser h user) waiting of
             Some i \<Rightarrow> (Some (waiting ! i), splice1 i waiting)
           | None \<Rightarrow> (None, waiting)))"

definition removeFromWaiting :: "(addr \<Rightarrow> User) \<Rightarrow> string \<Rightarrow> addr list \<Rightarrow> addr list" where
  "removeFromWaiting h userId waiting =
     (case findIndex (\<lambda>u. idU (h u) = userId) waiting of
        None \<Rightarrow> waiting
      | Some index \<Rightarrow> splice1 index waiting)"

section \<open>The transport layer\<close>

text \<open>
  Socket.IO is outside the repository; the handlers use five of its operations. Their
  documented behaviour: \<open>socket.emit\<close> reaches that socket; \<open>socket.to(room).emit\<close> reaches
  every socket in the room except the sending one; \<open>io.to(room).emit\<close> reaches every socket
  in the room; \<open>io.emit\<close> reaches every connected socket; \<open>socket.join(room)\<close> adds the socket
  to the room once. A socket is in \<open>io.sockets.sockets\<close> and in the room named by its own id
  from before the connection callback runs, and has left both before its disconnect
  handler runs.
\<close>

definition socketEmit :: "string \<Rightarrow> string \<Rightarrow> payload \<Rightarrow> delivery list" where
  "socketEmit sid name p = [(sid, name, p)]"

definition socketEmitOpt :: "state \<Rightarrow> string \<Rightarrow> string \<Rightarrow> payload \<Rightarrow> delivery list" where
  "socketEmitOpt s sid name p = (if sid \<in> set (sockets s) then [(sid, name, p)] else [])"

definition socketTo :: "state \<Rightarrow> string \<Rightarrow> string \<Rightarrow> string \<Rightarrow> payload \<Rightarrow> delivery list" where
  "socketTo s sid room name p =
     map (\<lambda>r. (r, name, p)) (filter (\<lambda>r. r \<noteq> sid) (rooms s room))"

definition ioTo :: "state \<Rightarrow> string \<Rightarrow> string \<Rightarrow> payload \<Rightarrow> delivery list" where
  "ioTo s room name p = map (\<lambda>r. (r, name, p)) (rooms s room)"

definition ioEmit :: "state \<Rightarrow> string \<Rightarrow> payload \<Rightarrow> delivery list" where
  "ioEmit s name p = map (\<lambda>r. (r, name, p)) (sockets s)"

definition joinRoom :: "string \<Rightarrow> string \<Rightarrow> state \<Rightarrow> state" where
  "joinRoom sid room s =
     (if sid \<in> set (rooms s room) then s
      else s\<lparr>rooms := (rooms s)(room := rooms s room @ [sid])\<rparr>)"

definition joinRoomOpt :: "string \<Rightarrow> string \<Rightarrow> state \<Rightarrow> state" where
  "joinRoomOpt sid room s = (if sid \<in> set (sockets s) then joinRoom sid room s else s)"

definition transportConnect :: "string \<Rightarrow> state \<Rightarrow> state" where
  "transportConnect sid s =
     joinRoom sid sid (s\<lparr>sockets := (if sid \<in> set (sockets s) then sockets s
                                      else sockets s @ [sid])\<rparr>)"

definition transportDisconnect :: "string \<Rightarrow> state \<Rightarrow> state" where
  "transportDisconnect sid s =
     s\<lparr>sockets := filter (\<lambda>r. r \<noteq> sid) (sockets s),
       rooms := (\<lambda>room. filter (\<lambda>r. r \<noteq> sid) (rooms s room))\<rparr>"

section \<open>The event handlers\<close>

definition setUser :: "addr \<Rightarrow> User \<Rightarrow> state \<Rightarrow> state" where
  "setUser a u s = s\<lparr>heap := (heap s)(a := u)\<rparr>"

definition onConnection :: "state \<Rightarrow> string \<Rightarrow> string \<Rightarrow> state \<times> delivery list" where
  "onConnection s0 sid userId =
     (let s = transportConnect sid s0;
          a = nextAddr s;
          user = \<lparr>idU = userId, socketId = sid, interests = None, inChat = False,
                  partnerId = None\<rparr>;
          s1 = (setUser a user s)\<lparr>nextAddr := Suc a, activeUsers := mapSet (activeUsers s) sid a\<rparr>
      in (s1,
          socketEmit sid ''user-id'' (Arg (Str userId)) @
          socketEmit sid ''online-count'' (Arg (Num (length (activeUsers s1)))) @
          ioEmit s1 ''online-count'' (Arg (Num (length (activeUsers s1))))))"

definition roomLabel :: "string \<Rightarrow> string \<Rightarrow> string" where
  "roomLabel a b = ''room-'' @ a @ ''-'' @ b"

definition onFindPartner :: "state \<Rightarrow> string \<Rightarrow> string list option \<Rightarrow> state \<times> delivery list" where
  "onFindPartner s sid ins =
     (case mapGet (activeUsers s) sid of
        None \<Rightarrow> (s, [])
      | Some currentUser \<Rightarrow>
          (let s1 = s\<lparr>waitingUsers :=
                       removeFromWaiting (heap s) (idU (heap s currentUser)) (waitingUsers s)\<rparr>;
               s2 = setUser currentUser
                      ((heap s1 currentUser)\<lparr>interests := ins, inChat := False\<rparr>) s1
           in (case findPartner (heap s2) currentUser (waitingUsers s2) of
                 (Some partner, waiting') \<Rightarrow>
                   (let s3 = s2\<lparr>waitingUsers := waiting'\<rparr>;
                        s4 = setUser currentUser
                               ((heap s3 currentUser)\<lparr>partnerId := Some (idU (heap s3 partner)),
                                                      inChat := True\<rparr>) s3;
                        s5 = setUser partner
                               ((heap s4 partner)\<lparr>partnerId := Some (idU (heap s4 currentUser)),
                                                  inChat := True\<rparr>) s4;
                        partnerSocket = socketId (heap s5 partner);
                        roomId = roomLabel (idU (heap s5 currentUser)) (idU (heap s5 partner));
                        s6 = joinRoom sid roomId s5;
                        s7 = joinRoomOpt partnerSocket roomId s6
                    in (s7,
                        socketEmit sid ''partner-found''
                          (Obj [(''partnerId'', Str (idU (heap s7 partner))),
                                (''roomId'', Str roomId),
                                (''initiator'', Bool True)]) @
                        socketEmitOpt s7 partnerSocket ''partner-found''
                          (Obj [(''partnerId'', Str (idU (heap s7 currentUser))),
                                (''roomId'', Str roomId),
                                (''initiator'', Bool False)])))
               | (None, waiting') \<Rightarrow>
                   (s2\<lparr>waitingUsers := waiting' @ [currentUser]\<rparr>,
                    socketEmit sid ''waiting'' NoArg))))"

definition onCancelSearch :: "state \<Rightarrow> string \<Rightarrow> state \<times> delivery list" where
  "onCancelSearch s sid =
     (case mapGet (activeUsers s) sid of
        None \<Rightarrow> (s, [])
      | Some currentUser \<Rightarrow>
          (s\<lparr>waitingUsers :=
               removeFromWaiting (heap s) (idU (heap s currentUser)) (waitingUsers s)\<rparr>,
           socketEmit sid ''search-cancelled'' NoArg))"

definition onSendMessage ::
  "state \<Rightarrow> string \<Rightarrow> string \<Rightarrow> string \<Rightarrow> string \<Rightarrow> nat \<Rightarrow> state \<times> delivery list" where
  "onSendMessage s sid message roomId msgId now =
     (case mapGet (activeUsers s) sid of
        None \<Rightarrow> (s, [])
      | Some currentUser \<Rightarrow>
          (s, ioTo s roomId ''receive-message''
                (Obj [(''id'', Str msgId),
                      (''senderId'', Str (idU (heap s currentUser))),
                      (''content'', Client message),
                      (''timestamp'', Date now)])))"

text \<open>
  \<open>Array.from(activeUsers.entries()).find(([, u]) => u.id === currentUser.partnerId)\<close>: the
  first entry, in insertion order, whose User has the id.
\<close>

definition partnerEntry :: "state \<Rightarrow> addr \<Rightarrow> (string \<times> addr) option" where
  "partnerEntry s currentUser =
     find (\<lambda>e. Some (idU (heap s (snd e))) = partnerId (heap s currentUser)) (activeUsers s)"

definition onSkipPartner :: "state \<Rightarrow> string \<Rightarrow> state \<times> delivery list" where
  "onSkipPartner s sid =
     (case mapGet (activeUsers s) sid of
        None \<Rightarrow> (s, [])
      | Some currentUser \<Rightarrow>
          if \<not> truthy (partnerId (heap s currentUser)) then (s, [])
          else
            (let (s1, d1) =
                   (case partnerEntry s currentUser of
                      None \<Rightarrow> (s, [])
                    | Some (partnerSocketId, partner) \<Rightarrow>
                        (setUser partner
                           ((heap s partner)\<lparr>partnerId := None, inChat := False\<rparr>) s,
                         socketEmitOpt s partnerSocketId ''partner-disconnected'' NoArg));
                 s2 = setUser currentUser
                        ((heap s1 currentUser)\<lparr>partnerId := None, inChat := False\<rparr>) s1
             in (s2, d1 @ socketEmit sid ''chat-ended'' NoArg)))"

definition onDisconnect :: "state \<Rightarrow> string \<Rightarrow> state \<times> delivery list" where
  "onDisconnect s0 sid =
     (let s = transportDisconnect sid s0;
          (s3, d3) =
            (case mapGet (activeUsers s) sid of
               None \<Rightarrow> (s, [])
             | Some currentUser \<Rightarrow>
                 (let (s1, d1) =
                        (if truthy (partnerId (heap s currentUser)) then
                           (case partnerEntry s currentUser of
                              None \<Rightarrow> (s, [])
                            | Some (partnerSocketId, partner) \<Rightarrow>
                                (setUser partner
                                   ((heap s partner)\<lparr>partnerId := None, inChat := False\<rparr>) s,
                                 socketEmitOpt s partnerSocketId ''partner-disconnected'' NoArg))
                         else (s, []));
                      s2 = s1\<lparr>waitingUsers :=
                                removeFromWaiting (heap s1) (idU (heap s1 currentUser))
                                  (waitingUsers s1),
                              activeUsers := mapDelete (activeUsers s1) sid\<rparr>
                  in (s2, d1)))
      in (s3, d3 @ ioEmit s3 ''online-count'' (Arg (Num (length (activeUsers s3))))))"

text \<open>
  The relay handlers read nothing but the event: each is one \<open>socket.to(roomId).emit\<close>.
  \<open>relayOf\<close> gives, for such an event, the room, the outgoing event name and the payload.
\<close>

fun relayOf :: "string \<Rightarrow> event \<Rightarrow> (string \<times> string \<times> payload) option" where
  "relayOf sid (WebrtcSignal signal roomId) =
     Some (roomId, ''webrtc-signal'', Obj [(''signal'', Client signal), (''from'', Str sid)])"
| "relayOf sid (Typing roomId isTyping) = Some (roomId, ''partner-typing'', Arg (Client isTyping))"
| "relayOf sid (RequestGame roomId gameType) =
     Some (roomId, ''game-request'', Obj [(''gameType'', Client gameType)])"
| "relayOf sid (AcceptGame roomId gameType) =
     Some (roomId, ''game-accepted'', Obj [(''gameType'', Client gameType)])"
| "relayOf sid (DeclineGame roomId gameType) =
     Some (roomId, ''game-declined'', Obj [(''gameType'', Client gameType)])"
| "relayOf sid (StartGame roomId gameType) =
     Some (roomId, ''game-started'', Obj [(''gameType'', Client gameType)])"
| "relayOf sid (TicTacToeMove roomId index symbol) =
     Some (roomId, ''tic-tac-toe-move'', Obj [(''index'', Client index), (''symbol'', Client symbol)])"
| "relayOf sid (TicTacToePlayAgain roomId) = Some (roomId, ''tic-tac-toe-play-again'', NoArg)"
| "relayOf sid (WyrChoice roomId choice) =
     Some (roomId, ''wyr-choice'', Obj [(''choice'', Client choice)])"
| "relayOf sid (WyrNextQuestion roomId question) =
     Some (roomId, ''wyr-next-question'', Obj [(''question'', Client question)])"
| "relayOf sid _ = None"

definition onRelay :: "state \<Rightarrow> string \<Rightarrow> event \<Rightarrow> state \<times> delivery list" where
  "onRelay s sid ev =
     (case relayOf sid ev of
        None \<Rightarrow> (s, [])
      | Some (roomId, name, p) \<Rightarrow> (s, socketTo s sid roomId name p))"

text \<open>One event arriving on the socket \<open>sid\<close>.\<close>

fun step :: "state \<Rightarrow> string \<times> event \<Rightarrow> state \<times> delivery list" where
  "step s (sid, Connection userId) = onConnection s sid userId"
| "step s (sid, FindPartner ins) = onFindPartner s sid ins"
| "step s (sid, CancelSearch) = onCancelSearch s sid"
| "step s (sid, SendMessage message roomId msgId now) = onSendMessage s sid message roomId msgId now"
| "step s (sid, SkipPartner) = onSkipPartner s sid"
| "step s (sid, Disconnect) = onDisconnect s sid"
| "step s (sid, ev) = onRelay s sid ev"

text \<open>
  What the environment guarantees: a new connection gets a socket id no live connection
  has, and \<open>uuidv4()\<close> gives it a non-empty id no registered User has. The runs below
  also admit events on sockets that are not connected, which the transport never hands to
  a handler: what holds of every accepted run holds of every run the server can see.
\<close>

definition userIds :: "state \<Rightarrow> string list" where
  "userIds s = map (\<lambda>e. idU (heap s (snd e))) (activeUsers s)"

fun envOk :: "state \<Rightarrow> string \<times> event \<Rightarrow> bool" where
  "envOk s (sid, Connection userId) =
     (sid \<notin> set (sockets s) \<and> userId \<noteq> [] \<and> userId \<notin> set (userIds s))"
| "envOk s (sid, ev) = True"

fun exec :: "state \<Rightarrow> (string \<times> event) list \<Rightarrow> state" where
  "exec s [] = s"
| "exec s (e # es) = exec (fst (step s e)) es"

fun accepted :: "state \<Rightarrow> (string \<times> event) list \<Rightarrow> bool" where
  "accepted s [] = True"
| "accepted s (e # es) = (envOk s e \<and> accepted (fst (step s e)) es)"

text \<open>
  Socket.IO hands a client's event to the handlers of a socket only while that socket is
  connected: what is sent on a closed connection reaches no handler. \<open>dispatch\<close> is one
  inbound event as the transport treats it; a connection event opens the socket itself.
\<close>

definition dispatch :: "state \<Rightarrow> string \<times> event \<Rightarrow> state \<times> delivery list" where
  "dispatch s e =
     (case snd e of
        Connection userId \<Rightarrow> step s e
      | _ \<Rightarrow> if fst e \<in> set (sockets s) then step s e else (s, []))"

section \<open>The matcher as the specification words it\<close>

text \<open>
  The specification's \<open>selectPartner(requester, pool)\<close>, written from its three steps: with
  non-empty requester interests, the first candidate in arrival order, not the requester,
  whose interests share an element with the requester's; otherwise, or when there is none,
  the first candidate that is not the requester; the chosen candidate leaves the pool.
  "Not the requester" is a different User id.
\<close>

definition sharesInterest :: "User \<Rightarrow> User \<Rightarrow> bool" where
  "sharesInterest requester candidate =
     (case interests requester of
        None \<Rightarrow> False
      | Some ris \<Rightarrow> (case interests candidate of
                      None \<Rightarrow> False
                    | Some cis \<Rightarrow> list_ex (\<lambda>x. x \<in> set cis) ris))"

definition nonEmptyInterests :: "User \<Rightarrow> bool" where
  "nonEmptyInterests requester = (interests requester \<noteq> None \<and> interests requester \<noteq> Some [])"

definition tierOne :: "(addr \<Rightarrow> User) \<Rightarrow> addr \<Rightarrow> addr \<Rightarrow> bool" where
  "tierOne h requester c = (idU (h c) \<noteq> idU (h requester) \<and> sharesInterest (h requester) (h c))"

definition tierTwo :: "(addr \<Rightarrow> User) \<Rightarrow> addr \<Rightarrow> addr \<Rightarrow> bool" where
  "tierTwo h requester c = (idU (h c) \<noteq> idU (h requester))"

definition selectPartner :: "(addr \<Rightarrow> User) \<Rightarrow> addr \<Rightarrow> addr list \<Rightarrow> addr option \<times> addr list" where
  "selectPartner h requester pool =
     (case (if nonEmptyInterests (h requester) then find (tierOne h requester) pool else None) of
        Some c \<Rightarrow> (Some c, remove1 c pool)
      | None \<Rightarrow>
          (case find (tierTwo h requester) pool of
             Some c \<Rightarrow> (Some c, remove1 c pool)
           | None \<Rightarrow> (None, pool)))"

text \<open>A store for examples: three waiting Users at addresses 10 to 12 and a requester at address 13.\<close>

definition exampleHeap :: "addr \<Rightarrow> User" where
  "exampleHeap =
     (\<lambda>_. emptyUser)
       (10 := \<lparr>idU = ''u0'', socketId = ''s0'', interests = None, inChat = False, partnerId = None\<rparr>,
        11 := \<lparr>idU = ''u1'', socketId = ''s1'', interests = Some [''Music'', ''chess''],
               inChat = False, partnerId = None\<rparr>,
        12 := \<lparr>idU = ''u2'', socketId = ''s2'', interests = Some [''art'', ''music''],
               inChat = False, partnerId = None\<rparr>,
        13 := \<lparr>idU = ''u3'', socketId = ''s3'', interests = Some [''music''],
               inChat = False, partnerId = None\<rparr>)"

text \<open>
  Example runs. In \<open>pairedAB\<close> two clients connect, A asks for a partner and waits, B asks
  and is paired with A. In \<open>rematch\<close> a third client C then waits and A, still paired with
  B, asks again. In \<open>research\<close> A asks again while paired and nobody waits. In
  \<open>lateSignal\<close> A disconnects after the pairing. In \<open>requestTwice\<close> a lone client asks twice.
\<close>

definition pairedAB :: "(string \<times> event) list" where
  "pairedAB = [(''sA'', Connection ''uA''), (''sB'', Connection ''uB''),
               (''sA'', FindPartner None), (''sB'', FindPartner None)]"

definition rematch :: "(string \<times> event) list" where
  "rematch = [(''sA'', Connection ''uA''), (''sB'', Connection ''uB''),
              (''sC'', Connection ''uC''),
              (''sA'', FindPartner None), (''sB'', FindPartner None),
              (''sC'', FindPartner None), (''sA'', FindPartner None)]"

definition research :: "(string \<times> event) list" where
  "research = [(''sA'', Connection ''uA''), (''sB'', Connection ''uB''),
               (''sA'', FindPartner None), (''sB'', FindPartner None),
               (''sA'', FindPartner None)]"

definition lateSignal :: "(string \<times> event) list" where
  "lateSignal = [(''sA'', Connection ''uA''), (''sB'', Connection ''uB''),
                 (''sA'', FindPartner None), (''sB'', FindPartner None),
                 (''sA'', Disconnect)]"

definition requestTwice :: "(string \<times> event) list" where
  "requestTwice = [(''sA'', Connection ''uA''), (''sA'', FindPartner None),
                   (''sA'', FindPartner (Some [''music'']))]"

text \<open>The strings the server itself wrote into a payload (client values passed through apart).\<close>

fun valStrs :: "val \<Rightarrow> string list" where
  "valStrs (Str x) = [x]"
| "valStrs _ = []"

fun payloadStrs :: "payload \<Rightarrow> string list" where
  "payloadStrs NoArg = []"
| "payloadStrs (Arg v) = valStrs v"
| "payloadStrs (Obj fs) = concat (map (\<lambda>f. valStrs (snd f)) fs)"

text \<open>The addresses of the registered User objects, in registry order.\<close>

definition regAddrs :: "state \<Rightarrow> addr list" where
  "regAddrs s = map snd (activeUsers s)"

text \<open>
  The consistency of the two collections that every run maintains: socket ids and User ids
  are unique in the registry, every registered User records its own socket id, has a
  non-empty id and is not its own partner, registered sockets are live, and the waiting
  pool holds distinct registered Users that are not in a chat.
\<close>

definition wf :: "state \<Rightarrow> bool" where
  "wf s \<longleftrightarrow>
     distinct (map fst (activeUsers s)) \<and>
     distinct (map (\<lambda>a. idU (heap s a)) (regAddrs s)) \<and>
     (\<forall>e\<in>set (activeUsers s).
        socketId (heap s (snd e)) = fst e \<and> idU (heap s (snd e)) \<noteq> [] \<and>
        partnerId (heap s (snd e)) \<noteq> Some (idU (heap s (snd e))) \<and> snd e < nextAddr s) \<and>
     distinct (waitingUsers s) \<and>
     set (waitingUsers s) \<subseteq> set (regAddrs s) \<and>
     (\<forall>a\<in>set (waitingUsers s). \<not> inChat (heap s a)) \<and>
     fst ` set (activeUsers s) \<subseteq> set (sockets s)"

section \<open>Properties of the matcher\<close>

lemma findIndex_None: "findIndex P xs = None \<longleftrightarrow> (\<forall>x\<in>set xs. \<not> P x)"
  by (induction xs) auto

lemma findIndex_Some_ex: "findIndex P xs = Some i \<Longrightarrow> \<exists>x\<in>set xs. P x"
  using findIndex_None[of P xs] by auto

lemma findIndex_Some:
  "findIndex P xs = Some i \<Longrightarrow> i < length xs \<and> P (xs ! i) \<and> (\<forall>j<i. \<not> P (xs ! j))"
proof (induction xs arbitrary: i)
  case Nil
  then show ?case by simp
next
  case (Cons x xs)
  show ?case
  proof (cases "P x")
    case True
    with Cons.prems show ?thesis by simp
  next
    case False
    with Cons.prems obtain k where k: "findIndex P xs = Some k" "i = Suc k"
      by auto
    from Cons.IH[OF k(1)] False k(2) show ?thesis
      by (auto simp: nth_Cons split: nat.splits)
  qed
qed

lemma findIndex_find:
  "findIndex P xs = Some i \<Longrightarrow> find P xs = Some (xs ! i) \<and> remove1 (xs ! i) xs = splice1 i xs"
proof (induction xs arbitrary: i)
  case Nil
  then show ?case by simp
next
  case (Cons x xs)
  show ?case
  proof (cases "P x")
    case True
    with Cons.prems show ?thesis by (simp add: splice1_def)
  next
    case False
    with Cons.prems obtain k where k: "findIndex P xs = Some k" "i = Suc k"
      by auto
    from findIndex_Some[OF k(1)] have "P (xs ! k)" by simp
    with False have "x \<noteq> xs ! k" by auto
    with Cons.IH[OF k(1)] False k(2) show ?thesis
      by (simp add: splice1_def)
  qed
qed

lemma findIndex_find_None: "findIndex P xs = None \<Longrightarrow> find P xs = None"
  by (induction xs) (auto split: if_splits)

lemma interestMatch_tierOne: "interestMatch h u = tierOne h u"
  by (rule ext)
    (auto simp: interestMatch_def tierOne_def sharesInterest_def commonInterests_def
      list_ex_iff filter_empty_conv split: option.splits)

lemma otherUser_tierTwo: "otherUser h u = tierTwo h u"
  by (rule ext) (simp add: otherUser_def tierTwo_def)

lemma hasInterests_nonEmpty: "hasInterests u = nonEmptyInterests u"
  by (auto simp: hasInterests_def nonEmptyInterests_def split: option.splits)

lemma findPartner_refines: "findPartner h u pool = selectPartner h u pool"
  unfolding findPartner_def selectPartner_def hasInterests_nonEmpty
    interestMatch_tierOne otherUser_tierTwo
  by (auto split: option.splits dest: findIndex_find findIndex_find_None)

lemma findPartner_none:
  "fst (findPartner h u pool) = None \<longleftrightarrow> (\<forall>c\<in>set pool. idU (h c) = idU (h u))"
proof (cases "findIndex (otherUser h u) pool")
  case None
  then have all: "\<forall>c\<in>set pool. idU (h c) = idU (h u)"
    by (simp add: findIndex_None otherUser_def)
  then have "\<forall>c\<in>set pool. \<not> interestMatch h u c"
    by (simp add: interestMatch_def)
  then have "findIndex (interestMatch h u) pool = None"
    by (simp add: findIndex_None)
  with None all show ?thesis
    by (simp add: findPartner_def)
next
  case (Some i)
  from findIndex_Some_ex[OF Some] have "\<not> (\<forall>c\<in>set pool. idU (h c) = idU (h u))"
    by (auto simp: otherUser_def)
  with Some show ?thesis
    by (auto simp: findPartner_def split: option.splits)
qed

lemma findPartner_tier1:
  assumes "nonEmptyInterests (h u)" "\<exists>c\<in>set pool. tierOne h u c"
  shows "\<exists>i<length pool. tierOne h u (pool ! i) \<and> (\<forall>j<i. \<not> tierOne h u (pool ! j)) \<and>
           findPartner h u pool = (Some (pool ! i), take i pool @ drop (Suc i) pool)"
proof -
  from assms(2) obtain i where i: "findIndex (tierOne h u) pool = Some i"
    using findIndex_None[of "tierOne h u" pool] by (cases "findIndex (tierOne h u) pool") auto
  from findIndex_Some[OF i] i assms(1) show ?thesis
    by (auto simp: findPartner_def splice1_def hasInterests_nonEmpty interestMatch_tierOne)
qed

lemma findPartner_tier2:
  assumes "\<not> (nonEmptyInterests (h u) \<and> (\<exists>c\<in>set pool. tierOne h u c))"
    "\<exists>c\<in>set pool. tierTwo h u c"
  shows "\<exists>i<length pool. tierTwo h u (pool ! i) \<and> (\<forall>j<i. \<not> tierTwo h u (pool ! j)) \<and>
           findPartner h u pool = (Some (pool ! i), take i pool @ drop (Suc i) pool)"
proof -
  from assms(2) obtain i where i: "findIndex (tierTwo h u) pool = Some i"
    using findIndex_None[of "tierTwo h u" pool] by (cases "findIndex (tierTwo h u) pool") auto
  from assms(1)
  have "(if nonEmptyInterests (h u) then findIndex (tierOne h u) pool else None) = None"
    by (auto simp: findIndex_None)
  with findIndex_Some[OF i] i show ?thesis
    by (auto simp: findPartner_def splice1_def hasInterests_nonEmpty interestMatch_tierOne
        otherUser_tierTwo)
qed

text \<open>
  Claim C2. \<open>findPartner\<close> is the specified two-tier matcher: it computes exactly
  \<open>selectPartner\<close>; it returns none iff every pool entry (if any) has the requester's id;
  when the requester has interests and some other candidate shares one, the entry selected
  and removed is the earliest such candidate, whatever stands before it in the pool;
  otherwise, when some candidate is not the requester, it is the earliest of those.
\<close>

theorem findPartner_two_tiers:
  "findPartner h u pool = selectPartner h u pool \<and>
   (fst (findPartner h u pool) = None \<longleftrightarrow> (\<forall>c\<in>set pool. idU (h c) = idU (h u))) \<and>
   (nonEmptyInterests (h u) \<and> (\<exists>c\<in>set pool. tierOne h u c) \<longrightarrow>
      (\<exists>i<length pool. tierOne h u (pool ! i) \<and> (\<forall>j<i. \<not> tierOne h u (pool ! j)) \<and>
         findPartner h u pool = (Some (pool ! i), take i pool @ drop (Suc i) pool))) \<and>
   (\<not> (nonEmptyInterests (h u) \<and> (\<exists>c\<in>set pool. tierOne h u c)) \<and>
    (\<exists>c\<in>set pool. tierTwo h u c) \<longrightarrow>
      (\<exists>i<length pool. tierTwo h u (pool ! i) \<and> (\<forall>j<i. \<not> tierTwo h u (pool ! j)) \<and>
         findPartner h u pool = (Some (pool ! i), take i pool @ drop (Suc i) pool)))"
  using findPartner_refines[of h u pool] findPartner_none[of h u pool]
    findPartner_tier1[of h u pool] findPartner_tier2[of h u pool]
  by blast

theorem findPartner_two_tiers_witness:
  "nonEmptyInterests (exampleHeap 13) \<and> tierOne exampleHeap 13 12 \<and> \<not> tierOne exampleHeap 13 11 \<and>
   \<not> tierOne exampleHeap 13 10 \<and> tierTwo exampleHeap 13 10 \<and>
   findPartner exampleHeap 13 [10, 11, 12] = (Some 12, [10, 11]) \<and>
   fst (findPartner exampleHeap 13 [13]) = None \<and>
   findPartner exampleHeap 10 [11, 12] = (Some 11, [12])"
proof -
  have n: "nonEmptyInterests (exampleHeap 13)"
    by code_simp
  have t: "tierOne exampleHeap 13 12" "\<not> tierOne exampleHeap 13 11" "\<not> tierOne exampleHeap 13 10"
    "tierTwo exampleHeap 13 10"
    by code_simp+
  have s: "selectPartner exampleHeap 13 [10, 11, 12] = (Some 12, [10, 11])"
    by code_simp
  have s0: "selectPartner exampleHeap 10 [11, 12] = (Some 11, [12])"
    by code_simp
  have a: "\<forall>c\<in>set [13::nat]. idU (exampleHeap c) = idU (exampleHeap 13)"
    by simp
  have f1: "findPartner exampleHeap 13 [10, 11, 12] = (Some 12, [10, 11])"
    using findPartner_two_tiers[of exampleHeap 13 "[10, 11, 12]"] s by simp
  have f2: "fst (findPartner exampleHeap 13 [13]) = None"
    using findPartner_two_tiers[of exampleHeap 13 "[13]"] a by blast
  have f3: "findPartner exampleHeap 10 [11, 12] = (Some 11, [12])"
    using findPartner_two_tiers[of exampleHeap 10 "[11, 12]"] s0 by simp
  from n t f1 f2 f3 show ?thesis by blast
qed

section \<open>cancel-search\<close>

text \<open>
  Claim C10. On a connection with a registered User, cancel-search delivers
  \<open>search-cancelled\<close> to that connection and nothing else, whether or not the User is in the
  waiting pool; on a connection with no registered User it changes nothing and delivers
  nothing.
\<close>

theorem cancel_search_emits:
  "(mapGet (activeUsers s) sid \<noteq> None \<longrightarrow>
      snd (step s (sid, CancelSearch)) = [(sid, ''search-cancelled'', NoArg)]) \<and>
   (mapGet (activeUsers s) sid = None \<longrightarrow> step s (sid, CancelSearch) = (s, []))"
  by (auto simp: onCancelSearch_def socketEmit_def)

theorem cancel_search_emits_witness:
  "mapGet (activeUsers (exec init [(''sA'', Connection ''uA'')])) ''sA'' \<noteq> None \<and>
   waitingUsers (exec init [(''sA'', Connection ''uA'')]) = [] \<and>
   snd (step (exec init [(''sA'', Connection ''uA'')]) (''sA'', CancelSearch)) =
     [(''sA'', ''search-cancelled'', NoArg)] \<and>
   mapGet (activeUsers init) ''sB'' = None \<and>
   step init (''sB'', CancelSearch) = (init, [])"
proof -
  have r: "mapGet (activeUsers (exec init [(''sA'', Connection ''uA'')])) ''sA'' \<noteq> None"
    by code_simp
  have w: "waitingUsers (exec init [(''sA'', Connection ''uA'')]) = []"
    by code_simp
  have u: "mapGet (activeUsers init) ''sB'' = None"
    by (simp add: init_def mapGet_def)
  from cancel_search_emits[of "exec init [(''sA'', Connection ''uA'')]" "''sA''"]
    cancel_search_emits[of init "''sB''"] r w u
  show ?thesis by blast
qed

section \<open>The relay\<close>

lemma step_relay: "relayOf sid ev = Some r \<Longrightarrow> step s (sid, ev) = onRelay s sid ev"
  by (cases ev) simp_all

lemma socketTo_recipients: "fst ` set (socketTo s sid room name p) = set (rooms s room) - {sid}"
  by (auto simp: socketTo_def image_iff)

lemma ioTo_recipients: "fst ` set (ioTo s room name p) = set (rooms s room)"
  by (auto simp: ioTo_def image_iff)

text \<open>
  Claim C3, as stated, fails for send-message: the handler emits with \<open>io.to(roomId)\<close>, which
  reaches the whole room. After A and B are paired, B's message is delivered to B's own
  socket as well.
\<close>

theorem send_message_reaches_sender:
  "(''sB'', ''receive-message'',
    Obj [(''id'', Str ''m1''), (''senderId'', Str ''uB''), (''content'', Client ''hi''),
         (''timestamp'', Date 0)])
   \<in> set (snd (step (exec init pairedAB) (''sB'', SendMessage ''hi'' ''room-uB-uA'' ''m1'' 0)))"
proof -
  have "snd (step (exec init pairedAB) (''sB'', SendMessage ''hi'' ''room-uB-uA'' ''m1'' 0)) =
     [(''sB'', ''receive-message'',
       Obj [(''id'', Str ''m1''), (''senderId'', Str ''uB''), (''content'', Client ''hi''),
            (''timestamp'', Date 0)]),
      (''sA'', ''receive-message'',
       Obj [(''id'', Str ''m1''), (''senderId'', Str ''uB''), (''content'', Client ''hi''),
            (''timestamp'', Date 0)])]"
    by code_simp
  then show ?thesis by simp
qed

text \<open>
  Claim C3, amended. For webrtc-signal, typing and every game event, the handler changes no
  state and the mirrored event reaches exactly the sockets grouped under the named room
  other than the sender, each with the same name and payload. For send-message from a
  registered connection, \<open>receive-message\<close> reaches exactly the sockets grouped under the
  room, the sender included when it is a member.
\<close>

theorem relay_recipients:
  "(relayOf sid ev = Some (room, name, p) \<longrightarrow>
      fst (step s (sid, ev)) = s \<and>
      fst ` set (snd (step s (sid, ev))) = set (rooms s room) - {sid} \<and>
      (\<forall>d\<in>set (snd (step s (sid, ev))). snd d = (name, p))) \<and>
   (mapGet (activeUsers s) sid \<noteq> None \<longrightarrow>
      fst (step s (sid, SendMessage message room msgId now)) = s \<and>
      fst ` set (snd (step s (sid, SendMessage message room msgId now))) = set (rooms s room) \<and>
      (\<forall>d\<in>set (snd (step s (sid, SendMessage message room msgId now))).
          fst (snd d) = ''receive-message''))"
proof -
  have a: "relayOf sid ev = Some (room, name, p) \<Longrightarrow>
      step s (sid, ev) = (s, socketTo s sid room name p)"
    by (simp add: step_relay onRelay_def)
  have c: "\<forall>d\<in>set (socketTo s sid room name p). snd d = (name, p)"
    by (auto simp: socketTo_def)
  have d: "mapGet (activeUsers s) sid \<noteq> None \<Longrightarrow>
      \<exists>q. step s (sid, SendMessage message room msgId now) = (s, ioTo s room ''receive-message'' q)"
    by (auto simp: onSendMessage_def)
  have f: "\<forall>d\<in>set (ioTo s room n q). fst (snd d) = n" for n q
    by (auto simp: ioTo_def)
  show ?thesis
    using a socketTo_recipients[of s sid room name p] c d ioTo_recipients[of s room] f
    by (metis fst_conv snd_conv)
qed

theorem relay_recipients_witness:
  "relayOf ''sA'' (Typing ''room-uB-uA'' ''true'') =
     Some (''room-uB-uA'', ''partner-typing'', Arg (Client ''true'')) \<and>
   mapGet (activeUsers (exec init pairedAB)) ''sA'' \<noteq> None \<and>
   fst ` set (snd (step (exec init pairedAB) (''sA'', Typing ''room-uB-uA'' ''true''))) = {''sB''} \<and>
   fst ` set (snd (step (exec init pairedAB)
                    (''sA'', SendMessage ''hi'' ''room-uB-uA'' ''m1'' 0))) = {''sA'', ''sB''}"
proof -
  have r: "relayOf ''sA'' (Typing ''room-uB-uA'' ''true'') =
     Some (''room-uB-uA'', ''partner-typing'', Arg (Client ''true''))"
    by simp
  have g: "mapGet (activeUsers (exec init pairedAB)) ''sA'' \<noteq> None"
    by code_simp
  have m: "rooms (exec init pairedAB) ''room-uB-uA'' = [''sB'', ''sA'']"
    by code_simp
  have m1: "set (rooms (exec init pairedAB) ''room-uB-uA'') - {''sA''} = {''sB''}"
    unfolding m by auto
  have m2: "set (rooms (exec init pairedAB) ''room-uB-uA'') = {''sA'', ''sB''}"
    unfolding m by auto
  from relay_recipients[of "''sA''" "Typing ''room-uB-uA'' ''true''" "''room-uB-uA''"
      "''partner-typing''" "Arg (Client ''true'')" "exec init pairedAB" "''hi''" "''m1''" 0]
    r g m1 m2
  show ?thesis by simp
qed

section \<open>find-partner on a User that has a partner\<close>

text \<open>
  Claim C1 at a run of connect and find-partner events. A and B are paired, C waits, and A
  asks again: the handler resets only \<open>inChat\<close>, pairs A with C and leaves B untouched. A
  and B are both registered, B's \<open>partnerId\<close> is A's id, and A's \<open>partnerId\<close> is C's id.
\<close>

theorem rematch_breaks_symmetry:
  "accepted init rematch \<and>
   mapGet (activeUsers (exec init rematch)) ''sA'' = Some 0 \<and>
   mapGet (activeUsers (exec init rematch)) ''sB'' = Some 1 \<and>
   idU (heap (exec init rematch) 0) = ''uA'' \<and>
   idU (heap (exec init rematch) 1) = ''uB'' \<and>
   partnerId (heap (exec init rematch) 1) = Some ''uA'' \<and>
   partnerId (heap (exec init rematch) 0) = Some ''uC''"
  by code_simp

text \<open>
  Claim C4 at a run of connect and find-partner events. A and B are paired and A asks again
  while nobody waits: A is put in the waiting pool with \<open>inChat\<close> false and \<open>partnerId\<close>
  still B's id.
\<close>

theorem research_keeps_partnerId:
  "accepted init research \<and>
   mapGet (activeUsers (exec init research)) ''sA'' = Some 0 \<and>
   partnerId (heap (exec init research) 0) = Some ''uB'' \<and>
   \<not> inChat (heap (exec init research) 0) \<and>
   waitingUsers (exec init research) = [0]"
  by code_simp

section \<open>Consistency of registry and waiting pool\<close>

lemma set_splice1: "set (splice1 i xs) \<subseteq> set xs"
  unfolding splice1_def using set_take_subset[of i xs] set_drop_subset[of "Suc i" xs] by auto

lemma distinct_splice1: "distinct xs \<Longrightarrow> distinct (splice1 i xs)"
  unfolding splice1_def
  using set_take_disj_set_drop_if_distinct[of xs i "Suc i"] by simp

lemma splice1_removes: "distinct xs \<Longrightarrow> i < length xs \<Longrightarrow> xs ! i \<notin> set (splice1 i xs)"
proof -
  assume d: "distinct xs" and i: "i < length xs"
  from i have "xs = take i xs @ xs ! i # drop (Suc i) xs"
    by (rule id_take_nth_drop)
  with d have "distinct (take i xs @ xs ! i # drop (Suc i) xs)" by simp
  then show ?thesis by (simp add: splice1_def)
qed

lemma set_removeFromWaiting: "set (removeFromWaiting h x w) \<subseteq> set w"
  by (auto simp: removeFromWaiting_def split: option.splits dest: subsetD[OF set_splice1])

lemma distinct_removeFromWaiting: "distinct w \<Longrightarrow> distinct (removeFromWaiting h x w)"
  by (auto simp: removeFromWaiting_def distinct_splice1 split: option.splits)

lemma removeFromWaiting_gone:
  assumes d: "distinct (map (\<lambda>a. idU (h a)) w)" and a: "a \<in> set (removeFromWaiting h x w)"
  shows "idU (h a) \<noteq> x"
proof (cases "findIndex (\<lambda>u. idU (h u) = x) w")
  case None
  then have "\<forall>u\<in>set w. idU (h u) \<noteq> x"
    using findIndex_None[of "\<lambda>u. idU (h u) = x" w] by simp
  moreover from a None have "a \<in> set w"
    by (simp add: removeFromWaiting_def)
  ultimately show ?thesis by blast
next
  case (Some i)
  from findIndex_Some[OF Some] have i: "i < length w" "idU (h (w ! i)) = x" by blast+
  from d have dw: "distinct w" and inj: "inj_on (\<lambda>a. idU (h a)) (set w)"
    by (simp_all add: distinct_map)
  from a Some have m: "a \<in> set (splice1 i w)" by (simp add: removeFromWaiting_def)
  with splice1_removes[OF dw i(1)] have ne: "a \<noteq> w ! i" by blast
  from m set_splice1[of i w] have aw: "a \<in> set w" by blast
  from i(1) have iw: "w ! i \<in> set w" by simp
  from inj aw iw ne have "idU (h a) \<noteq> idU (h (w ! i))"
    unfolding inj_on_def by blast
  with i(2) show ?thesis by simp
qed

lemma findPartner_Some:
  assumes "findPartner h u w = (Some p, w')"
  shows "p \<in> set w \<and> idU (h p) \<noteq> idU (h u) \<and> set w' \<subseteq> set w \<and>
         (distinct w \<longrightarrow> distinct w' \<and> p \<notin> set w')"
proof -
  from assms obtain i where i: "p = w ! i" "w' = splice1 i w"
    "findIndex (interestMatch h u) w = Some i \<or> findIndex (otherUser h u) w = Some i"
    by (auto simp: findPartner_def split: option.splits if_splits)
  from i(3) have "i < length w \<and> idU (h (w ! i)) \<noteq> idU (h u)"
    by (auto dest: findIndex_Some simp: interestMatch_def otherUser_def)
  with i(1,2) show ?thesis
    using set_splice1[of i w] by (auto simp: distinct_splice1 splice1_removes)
qed

lemma findPartner_None: "findPartner h u w = (None, w') \<Longrightarrow> w' = w"
  by (auto simp: findPartner_def split: option.splits if_splits)

lemma mapGet_mem: "mapGet m k = Some v \<Longrightarrow> (k, v) \<in> set m"
  by (simp add: mapGet_def map_of_SomeD)

lemma mapGet_None: "mapGet m k = None \<longleftrightarrow> k \<notin> fst ` set m"
  by (simp add: mapGet_def map_of_eq_None_iff)

lemma mapGet_unique: "distinct (map fst m) \<Longrightarrow> (k, v) \<in> set m \<Longrightarrow> mapGet m k = Some v"
  by (simp add: mapGet_def)

lemma mapSet_fresh: "k \<notin> fst ` set m \<Longrightarrow> mapSet m k v = m @ [(k, v)]"
  by (induction m) auto

lemma wf_frame:
  assumes w: "wf s"
    and au: "activeUsers s' = activeUsers s" and na: "nextAddr s' = nextAddr s"
    and so: "sockets s' = sockets s"
    and ids: "\<And>a. idU (heap s' a) = idU (heap s a)"
    and sids: "\<And>a. socketId (heap s' a) = socketId (heap s a)"
    and pn: "\<And>a. a \<in> set (regAddrs s) \<Longrightarrow> partnerId (heap s' a) \<noteq> Some (idU (heap s a))"
    and dw: "distinct (waitingUsers s')" and sw: "set (waitingUsers s') \<subseteq> set (regAddrs s)"
    and ic: "\<And>a. a \<in> set (waitingUsers s') \<Longrightarrow> \<not> inChat (heap s' a)"
  shows "wf s'"
proof -
  have r: "regAddrs s' = regAddrs s"
    by (simp add: regAddrs_def au)
  have e: "\<forall>e\<in>set (activeUsers s).
        socketId (heap s' (snd e)) = fst e \<and> idU (heap s' (snd e)) \<noteq> [] \<and>
        partnerId (heap s' (snd e)) \<noteq> Some (idU (heap s' (snd e))) \<and> snd e < nextAddr s"
  proof
    fix e assume m: "e \<in> set (activeUsers s)"
    then have "snd e \<in> set (regAddrs s)" by (simp add: regAddrs_def)
    from pn[OF this] m w show "socketId (heap s' (snd e)) = fst e \<and> idU (heap s' (snd e)) \<noteq> [] \<and>
        partnerId (heap s' (snd e)) \<noteq> Some (idU (heap s' (snd e))) \<and> snd e < nextAddr s"
      by (simp add: wf_def ids sids)
  qed
  from w have k: "distinct (map fst (activeUsers s))" "distinct (map (\<lambda>a. idU (heap s a)) (regAddrs s))"
    "fst ` set (activeUsers s) \<subseteq> set (sockets s)"
    by (simp_all add: wf_def)
  show ?thesis
    unfolding wf_def r au na so ids
    using k e dw sw ic by (intro conjI) (simp_all add: ids)
qed

lemma wf_pool_ids: "wf s \<Longrightarrow> distinct (map (\<lambda>a. idU (heap s a)) (waitingUsers s))"
proof -
  assume w: "wf s"
  then have "inj_on (\<lambda>a. idU (heap s a)) (set (regAddrs s))"
    by (simp add: wf_def distinct_map)
  with w have "inj_on (\<lambda>a. idU (heap s a)) (set (waitingUsers s))"
    unfolding wf_def by (blast intro: inj_on_subset)
  with w show ?thesis by (simp add: wf_def distinct_map)
qed

lemma wf_registered: "wf s \<Longrightarrow> mapGet (activeUsers s) sid = Some cu \<Longrightarrow> cu \<in> set (regAddrs s)"
  by (force simp: regAddrs_def dest: mapGet_mem)

lemma wf_onCancelSearch: "wf s \<Longrightarrow> wf (fst (onCancelSearch s sid))"
proof (cases "mapGet (activeUsers s) sid")
  case None
  assume "wf s" with None show ?thesis by (simp add: onCancelSearch_def)
next
  case (Some cu)
  assume w: "wf s"
  let ?w = "removeFromWaiting (heap s) (idU (heap s cu)) (waitingUsers s)"
  have r: "fst (onCancelSearch s sid) = s\<lparr>waitingUsers := ?w\<rparr>"
    using Some by (simp add: onCancelSearch_def)
  show ?thesis unfolding r
  proof (rule wf_frame[OF w])
    show "distinct (waitingUsers (s\<lparr>waitingUsers := ?w\<rparr>))"
      using w by (simp add: wf_def distinct_removeFromWaiting)
    show "set (waitingUsers (s\<lparr>waitingUsers := ?w\<rparr>)) \<subseteq> set (regAddrs s)"
      using w set_removeFromWaiting[of "heap s" "idU (heap s cu)" "waitingUsers s"]
      by (auto simp: wf_def)
    show "\<not> inChat (heap (s\<lparr>waitingUsers := ?w\<rparr>) a)"
      if "a \<in> set (waitingUsers (s\<lparr>waitingUsers := ?w\<rparr>))" for a
      using that w set_removeFromWaiting[of "heap s" "idU (heap s cu)" "waitingUsers s"]
      by (auto simp: wf_def)
    show "partnerId (heap (s\<lparr>waitingUsers := ?w\<rparr>) a) \<noteq> Some (idU (heap s a))"
      if "a \<in> set (regAddrs s)" for a
      using that w by (auto simp: wf_def regAddrs_def)
  qed simp_all
qed

lemma onFindPartner_unregistered:
  "mapGet (activeUsers s) sid = None \<Longrightarrow> onFindPartner s sid ins = (s, [])"
  by (simp add: onFindPartner_def)

lemma onFindPartner_wait:
  assumes g: "mapGet (activeUsers s) sid = Some cu"
    and f: "findPartner ((heap s)(cu := (heap s cu)\<lparr>interests := ins, inChat := False\<rparr>)) cu
              (removeFromWaiting (heap s) (idU (heap s cu)) (waitingUsers s)) = (None, w')"
  shows "onFindPartner s sid ins =
           (s\<lparr>heap := (heap s)(cu := (heap s cu)\<lparr>interests := ins, inChat := False\<rparr>),
              waitingUsers := w' @ [cu]\<rparr>,
            [(sid, ''waiting'', NoArg)])"
  using g f by (simp add: onFindPartner_def Let_def setUser_def socketEmit_def)

lemma onFindPartner_match_state:
  assumes g: "mapGet (activeUsers s) sid = Some cu"
    and f: "findPartner ((heap s)(cu := (heap s cu)\<lparr>interests := ins, inChat := False\<rparr>)) cu
              (removeFromWaiting (heap s) (idU (heap s cu)) (waitingUsers s)) = (Some pa, w')"
    and ne: "pa \<noteq> cu"
  shows "heap (fst (onFindPartner s sid ins)) =
           (heap s)
             (cu := (heap s cu)\<lparr>interests := ins, partnerId := Some (idU (heap s pa)),
                                inChat := True\<rparr>,
              pa := (heap s pa)\<lparr>partnerId := Some (idU (heap s cu)), inChat := True\<rparr>) \<and>
         waitingUsers (fst (onFindPartner s sid ins)) = w' \<and>
         activeUsers (fst (onFindPartner s sid ins)) = activeUsers s \<and>
         nextAddr (fst (onFindPartner s sid ins)) = nextAddr s \<and>
         sockets (fst (onFindPartner s sid ins)) = sockets s"
  using g f ne
  by (simp add: onFindPartner_def Let_def setUser_def joinRoom_def joinRoomOpt_def)

lemma onFindPartner_match_out:
  assumes g: "mapGet (activeUsers s) sid = Some cu"
    and f: "findPartner ((heap s)(cu := (heap s cu)\<lparr>interests := ins, inChat := False\<rparr>)) cu
              (removeFromWaiting (heap s) (idU (heap s cu)) (waitingUsers s)) = (Some pa, w')"
    and ne: "pa \<noteq> cu"
  shows "snd (onFindPartner s sid ins) =
           (sid, ''partner-found'',
            Obj [(''partnerId'', Str (idU (heap s pa))),
                 (''roomId'', Str (roomLabel (idU (heap s cu)) (idU (heap s pa)))),
                 (''initiator'', Bool True)]) #
           (if socketId (heap s pa) \<in> set (sockets s)
            then [(socketId (heap s pa), ''partner-found'',
                   Obj [(''partnerId'', Str (idU (heap s cu))),
                        (''roomId'', Str (roomLabel (idU (heap s cu)) (idU (heap s pa)))),
                        (''initiator'', Bool False)])]
            else [])"
  using g f ne
  by (simp add: onFindPartner_def Let_def setUser_def joinRoom_def joinRoomOpt_def
      socketEmit_def socketEmitOpt_def)

lemma wf_onFindPartner:
  assumes w: "wf s"
  shows "wf (fst (onFindPartner s sid ins))"
proof (cases "mapGet (activeUsers s) sid")
  case None
  with w show ?thesis by (simp add: onFindPartner_unregistered)
next
  case (Some cu)
  let ?h2 = "(heap s)(cu := (heap s cu)\<lparr>interests := ins, inChat := False\<rparr>)"
  let ?w1 = "removeFromWaiting (heap s) (idU (heap s cu)) (waitingUsers s)"
  from w have dw: "distinct (waitingUsers s)" and sw: "set (waitingUsers s) \<subseteq> set (regAddrs s)"
    and nc: "\<And>a. a \<in> set (waitingUsers s) \<Longrightarrow> \<not> inChat (heap s a)"
    and np: "\<And>a. a \<in> set (regAddrs s) \<Longrightarrow> partnerId (heap s a) \<noteq> Some (idU (heap s a))"
    by (auto simp: wf_def regAddrs_def)
  have cr: "cu \<in> set (regAddrs s)" by (rule wf_registered[OF w Some])
  have d1: "distinct ?w1" using dw by (rule distinct_removeFromWaiting)
  have s1: "set ?w1 \<subseteq> set (waitingUsers s)" by (rule set_removeFromWaiting)
  have g1: "\<And>a. a \<in> set ?w1 \<Longrightarrow> a \<noteq> cu"
    using removeFromWaiting_gone[OF wf_pool_ids[OF w]] by blast
  obtain po w' where f: "findPartner ?h2 cu ?w1 = (po, w')" by (cases "findPartner ?h2 cu ?w1")
  show ?thesis
  proof (cases po)
    case None
    with f have f': "findPartner ?h2 cu ?w1 = (None, w')" by simp
    from findPartner_None[OF f'] have we: "w' = ?w1" .
    have r: "fst (onFindPartner s sid ins) = s\<lparr>heap := ?h2, waitingUsers := ?w1 @ [cu]\<rparr>"
      using onFindPartner_wait[OF Some f'] we by simp
    show ?thesis unfolding r
    proof (rule wf_frame[OF w])
      show "distinct (waitingUsers (s\<lparr>heap := ?h2, waitingUsers := ?w1 @ [cu]\<rparr>))"
        using d1 g1 by auto
      show "set (waitingUsers (s\<lparr>heap := ?h2, waitingUsers := ?w1 @ [cu]\<rparr>)) \<subseteq> set (regAddrs s)"
        using s1 sw cr by auto
      show "\<not> inChat (heap (s\<lparr>heap := ?h2, waitingUsers := ?w1 @ [cu]\<rparr>) a)"
        if "a \<in> set (waitingUsers (s\<lparr>heap := ?h2, waitingUsers := ?w1 @ [cu]\<rparr>))" for a
        using that s1 nc by auto
      show "partnerId (heap (s\<lparr>heap := ?h2, waitingUsers := ?w1 @ [cu]\<rparr>) a) \<noteq> Some (idU (heap s a))"
        if "a \<in> set (regAddrs s)" for a
        using np[OF that] by auto
    qed simp_all
  next
    case (Some pa)
    with f have f': "findPartner ?h2 cu ?w1 = (Some pa, w')" by simp
    from findPartner_Some[OF f'] d1
    have p: "pa \<in> set ?w1" "idU (?h2 pa) \<noteq> idU (?h2 cu)" "set w' \<subseteq> set ?w1" "distinct w'"
      "pa \<notin> set w'"
      by blast+
    from p(1) g1 have ne: "pa \<noteq> cu" by blast
    with p(2) have idne: "idU (heap s pa) \<noteq> idU (heap s cu)" by simp
    note st = onFindPartner_match_state[OF \<open>mapGet (activeUsers s) sid = Some cu\<close> f' ne]
    show ?thesis
    proof (rule wf_frame[OF w])
      show "distinct (waitingUsers (fst (onFindPartner s sid ins)))"
        using st p(4) by simp
      show "set (waitingUsers (fst (onFindPartner s sid ins))) \<subseteq> set (regAddrs s)"
        using st p(3) s1 sw by auto
      show "\<not> inChat (heap (fst (onFindPartner s sid ins)) a)"
        if "a \<in> set (waitingUsers (fst (onFindPartner s sid ins)))" for a
      proof -
        from that st have aw: "a \<in> set w'" by simp
        with p(3,5) g1 have "a \<noteq> pa" "a \<noteq> cu" by blast+
        moreover from aw p(3) s1 have "\<not> inChat (heap s a)" using nc by blast
        ultimately show ?thesis using st by simp
      qed
      show "partnerId (heap (fst (onFindPartner s sid ins)) a) \<noteq> Some (idU (heap s a))"
        if "a \<in> set (regAddrs s)" for a
        using np[OF that] st idne ne by auto
      show "idU (heap (fst (onFindPartner s sid ins)) a) = idU (heap s a)" for a
        using st by simp
      show "socketId (heap (fst (onFindPartner s sid ins)) a) = socketId (heap s a)" for a
        using st by simp
    qed (simp_all add: st)
  qed
qed

lemma partnerEntry_mem: "partnerEntry s cu = Some e \<Longrightarrow> e \<in> set (activeUsers s)"
  unfolding partnerEntry_def by (auto simp: find_Some_iff)

lemma wf_clear:
  assumes w: "wf s"
  shows "wf (setUser a ((heap s a)\<lparr>partnerId := None, inChat := False\<rparr>) s)"
proof (rule wf_frame[OF w])
  show "\<not> inChat (heap (setUser a ((heap s a)\<lparr>partnerId := None, inChat := False\<rparr>) s) b)"
    if "b \<in> set (waitingUsers (setUser a ((heap s a)\<lparr>partnerId := None, inChat := False\<rparr>) s))"
    for b using that w by (auto simp: wf_def setUser_def)
  show "partnerId (heap (setUser a ((heap s a)\<lparr>partnerId := None, inChat := False\<rparr>) s) b)
          \<noteq> Some (idU (heap s b))"
    if "b \<in> set (regAddrs s)" for b
    using that w by (auto simp: wf_def setUser_def regAddrs_def)
  show "distinct (waitingUsers (setUser a ((heap s a)\<lparr>partnerId := None, inChat := False\<rparr>) s))"
    using w by (simp add: wf_def setUser_def)
  show "set (waitingUsers (setUser a ((heap s a)\<lparr>partnerId := None, inChat := False\<rparr>) s))
          \<subseteq> set (regAddrs s)"
    using w by (simp add: wf_def setUser_def)
qed (simp_all add: setUser_def)

lemma wf_onSkipPartner:
  assumes w: "wf s"
  shows "wf (fst (onSkipPartner s sid))"
proof (cases "mapGet (activeUsers s) sid")
  case None
  with w show ?thesis by (simp add: onSkipPartner_def)
next
  case (Some cu)
  show ?thesis
  proof (cases "truthy (partnerId (heap s cu))")
    case False
    with Some w show ?thesis by (simp add: onSkipPartner_def)
  next
    case True
    show ?thesis
    proof (cases "partnerEntry s cu")
      case None
      with Some True have "fst (onSkipPartner s sid) =
          setUser cu ((heap s cu)\<lparr>partnerId := None, inChat := False\<rparr>) s"
        by (simp add: onSkipPartner_def)
      with wf_clear[OF w] show ?thesis by simp
    next
      case (Some e)
      obtain k pa where e: "e = (k, pa)" by (cases e)
      let ?s1 = "setUser pa ((heap s pa)\<lparr>partnerId := None, inChat := False\<rparr>) s"
      from Some e \<open>mapGet (activeUsers s) sid = Some cu\<close> True
      have "fst (onSkipPartner s sid) =
          setUser cu ((heap ?s1 cu)\<lparr>partnerId := None, inChat := False\<rparr>) ?s1"
        by (simp add: onSkipPartner_def Let_def)
      with wf_clear[OF wf_clear[OF w]] show ?thesis by simp
    qed
  qed
qed

lemma wf_cong:
  assumes "heap s' = heap s" "activeUsers s' = activeUsers s" "waitingUsers s' = waitingUsers s"
    "sockets s' = sockets s" "nextAddr s' = nextAddr s"
  shows "wf s' = wf s"
  unfolding wf_def regAddrs_def assms ..

lemma wf_delete:
  assumes w: "wf s" and g: "mapGet (activeUsers s) sid = Some cu"
  shows "wf (s\<lparr>waitingUsers := removeFromWaiting (heap s) (idU (heap s cu)) (waitingUsers s),
               activeUsers := mapDelete (activeUsers s) sid,
               sockets := filter (\<lambda>r. r \<noteq> sid) (sockets s)\<rparr>)"
proof -
  let ?w = "removeFromWaiting (heap s) (idU (heap s cu)) (waitingUsers s)"
  let ?m = "filter (\<lambda>e. fst e \<noteq> sid) (activeUsers s)"
  from w have dk: "distinct (map fst (activeUsers s))"
    and di: "distinct (map (\<lambda>a. idU (heap s a)) (map snd (activeUsers s)))"
    and en: "\<forall>e\<in>set (activeUsers s).
        socketId (heap s (snd e)) = fst e \<and> idU (heap s (snd e)) \<noteq> [] \<and>
        partnerId (heap s (snd e)) \<noteq> Some (idU (heap s (snd e))) \<and> snd e < nextAddr s"
    and dw: "distinct (waitingUsers s)"
    and sw: "set (waitingUsers s) \<subseteq> snd ` set (activeUsers s)"
    and nc: "\<forall>a\<in>set (waitingUsers s). \<not> inChat (heap s a)"
    and so: "fst ` set (activeUsers s) \<subseteq> set (sockets s)"
    by (simp_all add: wf_def regAddrs_def)
  have c1: "distinct (map fst ?m)" using dk by (rule distinct_map_filter)
  from di have "distinct (map (\<lambda>e. idU (heap s (snd e))) (activeUsers s))"
    by (simp add: comp_def)
  then have "distinct (map (\<lambda>e. idU (heap s (snd e))) ?m)" by (rule distinct_map_filter)
  then have c2: "distinct (map (\<lambda>a. idU (heap s a)) (map snd ?m))" by (simp add: comp_def)
  have c3: "\<forall>e\<in>set ?m.
        socketId (heap s (snd e)) = fst e \<and> idU (heap s (snd e)) \<noteq> [] \<and>
        partnerId (heap s (snd e)) \<noteq> Some (idU (heap s (snd e))) \<and> snd e < nextAddr s"
    using en by simp
  have c4: "distinct ?w" using dw by (rule distinct_removeFromWaiting)
  have sub: "set ?w \<subseteq> set (waitingUsers s)" by (rule set_removeFromWaiting)
  have c5: "set ?w \<subseteq> snd ` set ?m"
  proof
    fix a assume a: "a \<in> set ?w"
    from removeFromWaiting_gone[OF wf_pool_ids[OF w] a] have ne: "a \<noteq> cu" by blast
    from a sub sw obtain k where k: "(k, a) \<in> set (activeUsers s)" by force
    have "k \<noteq> sid"
    proof
      assume "k = sid"
      with k dk have "mapGet (activeUsers s) sid = Some a" by (simp add: mapGet_def)
      with g ne show False by simp
    qed
    with k have "(k, a) \<in> set ?m" by simp
    then show "a \<in> snd ` set ?m" by force
  qed
  have c6: "\<forall>a\<in>set ?w. \<not> inChat (heap s a)" using nc sub by blast
  have c7: "fst ` set ?m \<subseteq> set (filter (\<lambda>r. r \<noteq> sid) (sockets s))"
    using so by auto
  show ?thesis
    unfolding wf_def regAddrs_def mapDelete_def
    using c1 c2 c3 c4 c5 c6 c7 by simp
qed

lemma onDisconnect_state:
  assumes g: "mapGet (activeUsers s) sid = Some cu"
  defines "s1 \<equiv> (if truthy (partnerId (heap s cu)) then
                   (case partnerEntry s cu of
                      None \<Rightarrow> s
                    | Some e \<Rightarrow> setUser (snd e) ((heap s (snd e))\<lparr>partnerId := None, inChat := False\<rparr>) s)
                 else s)"
  shows "heap (fst (onDisconnect s sid)) = heap s1 \<and>
         waitingUsers (fst (onDisconnect s sid)) =
           removeFromWaiting (heap s1) (idU (heap s1 cu)) (waitingUsers s1) \<and>
         activeUsers (fst (onDisconnect s sid)) = mapDelete (activeUsers s1) sid \<and>
         sockets (fst (onDisconnect s sid)) = filter (\<lambda>r. r \<noteq> sid) (sockets s1) \<and>
         nextAddr (fst (onDisconnect s sid)) = nextAddr s1"
proof -
  have p: "partnerEntry (s\<lparr>sockets := x, rooms := y\<rparr>) c = partnerEntry s c" for x y c
    by (simp add: partnerEntry_def)
  show ?thesis
  proof (cases "truthy (partnerId (heap s cu))")
    case False
    with g show ?thesis
      by (simp add: onDisconnect_def Let_def s1_def transportDisconnect_def)
  next
    case True
    show ?thesis
    proof (cases "partnerEntry s cu")
      case None
      with g True show ?thesis
        by (simp add: onDisconnect_def Let_def s1_def transportDisconnect_def p)
    next
      case (Some e)
      with g True show ?thesis
        by (cases e)
          (simp add: onDisconnect_def Let_def s1_def transportDisconnect_def p setUser_def)
    qed
  qed
qed

lemma wf_onDisconnect:
  assumes w: "wf s"
  shows "wf (fst (onDisconnect s sid))"
proof (cases "mapGet (activeUsers s) sid")
  case None
  then have t: "mapGet (activeUsers (transportDisconnect sid s)) sid = None"
    by (simp add: transportDisconnect_def)
  have r: "fst (onDisconnect s sid) = transportDisconnect sid s"
    using t by (simp add: onDisconnect_def Let_def)
  from None have "sid \<notin> fst ` set (activeUsers s)" by (simp add: mapGet_None)
  with w show ?thesis
    unfolding r wf_def regAddrs_def transportDisconnect_def by auto
next
  case (Some cu)
  define s1 where "s1 = (if truthy (partnerId (heap s cu)) then
                   (case partnerEntry s cu of
                      None \<Rightarrow> s
                    | Some e \<Rightarrow> setUser (snd e) ((heap s (snd e))\<lparr>partnerId := None, inChat := False\<rparr>) s)
                 else s)"
  have w1: "wf s1"
    unfolding s1_def using w wf_clear[OF w] by (simp split: option.splits)
  have g1: "mapGet (activeUsers s1) sid = Some cu"
    unfolding s1_def using Some by (simp add: setUser_def split: option.splits)
  note st = onDisconnect_state[OF Some, folded s1_def]
  have "wf (fst (onDisconnect s sid)) =
        wf (s1\<lparr>waitingUsers := removeFromWaiting (heap s1) (idU (heap s1 cu)) (waitingUsers s1),
               activeUsers := mapDelete (activeUsers s1) sid,
               sockets := filter (\<lambda>r. r \<noteq> sid) (sockets s1)\<rparr>)"
    by (rule wf_cong) (simp_all add: st)
  with wf_delete[OF w1 g1] show ?thesis by simp
qed

lemma userIds_regAddrs: "userIds s = map (\<lambda>a. idU (heap s a)) (regAddrs s)"
  by (simp add: userIds_def regAddrs_def comp_def)

lemma onConnection_state:
  assumes f: "sid \<notin> set (sockets s)"
  shows "heap (fst (onConnection s sid userId)) =
           (heap s)(nextAddr s := \<lparr>idU = userId, socketId = sid, interests = None,
                                    inChat = False, partnerId = None\<rparr>) \<and>
         nextAddr (fst (onConnection s sid userId)) = Suc (nextAddr s) \<and>
         activeUsers (fst (onConnection s sid userId)) = mapSet (activeUsers s) sid (nextAddr s) \<and>
         waitingUsers (fst (onConnection s sid userId)) = waitingUsers s \<and>
         sockets (fst (onConnection s sid userId)) = sockets s @ [sid]"
  using f by (simp add: onConnection_def Let_def transportConnect_def joinRoom_def setUser_def)

lemma wf_onConnection:
  assumes w: "wf s" and f: "sid \<notin> set (sockets s)" and u: "userId \<noteq> []"
    and n: "userId \<notin> set (userIds s)"
  shows "wf (fst (onConnection s sid userId))"
proof -
  let ?a = "nextAddr s"
  let ?u = "\<lparr>idU = userId, socketId = sid, interests = None, inChat = False, partnerId = None\<rparr>"
  let ?h = "(heap s)(?a := ?u)"
  from w have dk: "distinct (map fst (activeUsers s))"
    and di: "distinct (map (\<lambda>a. idU (heap s a)) (map snd (activeUsers s)))"
    and en: "\<forall>e\<in>set (activeUsers s).
        socketId (heap s (snd e)) = fst e \<and> idU (heap s (snd e)) \<noteq> [] \<and>
        partnerId (heap s (snd e)) \<noteq> Some (idU (heap s (snd e))) \<and> snd e < nextAddr s"
    and dw: "distinct (waitingUsers s)"
    and sw: "set (waitingUsers s) \<subseteq> snd ` set (activeUsers s)"
    and nc: "\<forall>a\<in>set (waitingUsers s). \<not> inChat (heap s a)"
    and so: "fst ` set (activeUsers s) \<subseteq> set (sockets s)"
    by (simp_all add: wf_def regAddrs_def)
  from so f have fresh: "sid \<notin> fst ` set (activeUsers s)" by blast
  note st = onConnection_state[OF f, of userId]
  have m: "activeUsers (fst (onConnection s sid userId)) = activeUsers s @ [(sid, ?a)]"
    using st mapSet_fresh[OF fresh] by simp
  have old: "\<And>e. e \<in> set (activeUsers s) \<Longrightarrow> ?h (snd e) = heap s (snd e)"
    using en by auto
  have oldw: "\<And>a. a \<in> set (waitingUsers s) \<Longrightarrow> ?h a = heap s a"
    using sw old by force
  have c1: "distinct (map fst (activeUsers s @ [(sid, ?a)]))"
    using dk fresh by simp
  have ids: "map (\<lambda>a. idU (?h a)) (map snd (activeUsers s)) =
             map (\<lambda>a. idU (heap s a)) (map snd (activeUsers s))"
    using old by simp
  from n have n': "userId \<notin> set (map (\<lambda>a. idU (heap s a)) (map snd (activeUsers s)))"
    by (simp add: userIds_def comp_def)
  have "map (\<lambda>a. idU (?h a)) (map snd (activeUsers s @ [(sid, ?a)])) =
        map (\<lambda>a. idU (?h a)) (map snd (activeUsers s)) @ [userId]"
    by simp
  then have e2: "map (\<lambda>a. idU (?h a)) (map snd (activeUsers s @ [(sid, ?a)])) =
        map (\<lambda>a. idU (heap s a)) (map snd (activeUsers s)) @ [userId]"
    unfolding ids .
  have c2: "distinct (map (\<lambda>a. idU (?h a)) (map snd (activeUsers s @ [(sid, ?a)])))"
    unfolding e2 using di n' by simp
  have c3: "\<forall>e\<in>set (activeUsers s @ [(sid, ?a)]).
        socketId (?h (snd e)) = fst e \<and> idU (?h (snd e)) \<noteq> [] \<and>
        partnerId (?h (snd e)) \<noteq> Some (idU (?h (snd e))) \<and> snd e < Suc ?a"
  proof
    fix e assume "e \<in> set (activeUsers s @ [(sid, ?a)])"
    then consider "e \<in> set (activeUsers s)" | "e = (sid, ?a)" by auto
    then show "socketId (?h (snd e)) = fst e \<and> idU (?h (snd e)) \<noteq> [] \<and>
        partnerId (?h (snd e)) \<noteq> Some (idU (?h (snd e))) \<and> snd e < Suc ?a"
    proof cases
      case 1
      with en old[OF 1] show ?thesis by (simp add: less_Suc_eq)
    next
      case 2
      with u show ?thesis by simp
    qed
  qed
  have c5: "set (waitingUsers s) \<subseteq> snd ` set (activeUsers s @ [(sid, ?a)])"
    using sw by auto
  have c6: "\<forall>a\<in>set (waitingUsers s). \<not> inChat (?h a)"
    using nc oldw by simp
  have c7: "fst ` set (activeUsers s @ [(sid, ?a)]) \<subseteq> set (sockets s @ [sid])"
    using so by auto
  show ?thesis
    unfolding wf_def regAddrs_def m
    using st c1 c2 c3 dw c5 c6 c7 by simp
qed

lemma wf_init: "wf init"
  by (simp add: wf_def init_def regAddrs_def)

lemma wf_step: "wf s \<Longrightarrow> envOk s e \<Longrightarrow> wf (fst (step s e))"
proof -
  assume w: "wf s" and e: "envOk s e"
  obtain sid ev where p: "e = (sid, ev)" by (cases e)
  show ?thesis
  proof (cases "relayOf sid ev")
    case (Some r)
    then have "fst (step s (sid, ev)) = s"
      by (simp add: step_relay onRelay_def split: prod.splits)
    with w p show ?thesis by simp
  next
    case None
    then show ?thesis
      using w e p
      by (cases ev)
        (simp_all add: wf_onConnection wf_onFindPartner wf_onCancelSearch wf_onSkipPartner
          wf_onDisconnect onSendMessage_def split: option.splits)
  qed
qed

lemma wf_exec: "wf s \<Longrightarrow> accepted s es \<Longrightarrow> wf (exec s es)"
proof (induction es arbitrary: s)
  case Nil
  then show ?case by simp
next
  case (Cons e es)
  from Cons.prems have "wf (fst (step s e))" "accepted (fst (step s e)) es"
    by (simp_all add: wf_step)
  then show ?case using Cons.IH by simp
qed

section \<open>Waiting pool and pairing\<close>

lemma wf_socket:
  assumes w: "wf s" and a: "a \<in> set (regAddrs s)"
  shows "mapGet (activeUsers s) (socketId (heap s a)) = Some a \<and>
         socketId (heap s a) \<in> set (sockets s)"
proof -
  from a obtain k where k: "(k, a) \<in> set (activeUsers s)"
    by (auto simp: regAddrs_def)
  with w have "socketId (heap s a) = k" "distinct (map fst (activeUsers s))"
    "k \<in> set (sockets s)"
    by (auto simp: wf_def)
  with k show ?thesis by (simp add: mapGet_def)
qed

text \<open>
  Claim C6. After every run of events the waiting pool holds each User id at most once,
  and every entry is a registered User whose \<open>inChat\<close> flag is false. A repeated
  find-partner is covered as one more event of the run.
\<close>

theorem waiting_pool_invariant:
  assumes "accepted init es"
  shows "distinct (map (\<lambda>a. idU (heap (exec init es) a)) (waitingUsers (exec init es))) \<and>
         (\<forall>a\<in>set (waitingUsers (exec init es)).
            a \<in> set (regAddrs (exec init es)) \<and> \<not> inChat (heap (exec init es) a))"
proof -
  from wf_exec[OF wf_init assms] have w: "wf (exec init es)" .
  from wf_pool_ids[OF w] w show ?thesis
    by (auto simp: wf_def)
qed

theorem waiting_pool_invariant_witness:
  "accepted init requestTwice \<and> waitingUsers (exec init requestTwice) = [0] \<and>
   distinct (map (\<lambda>a. idU (heap (exec init requestTwice) a)) (waitingUsers (exec init requestTwice))) \<and>
   \<not> inChat (heap (exec init requestTwice) 0)"
proof -
  have a: "accepted init requestTwice" by code_simp
  have p: "waitingUsers (exec init requestTwice) = [0]" by code_simp
  from waiting_pool_invariant[OF a] a p show ?thesis by simp
qed

text \<open>
  Claim C8. When find-partner leaves the requester in a chat, the partner was taken from
  the waiting pool and is on another connection, the two Users name each other as
  partner, and exactly two \<open>partner-found\<close> notifications are delivered: the one with
  \<open>initiator = true\<close> to the requesting connection, the one with \<open>initiator = false\<close> to
  the connection of the User pulled from the pool.
\<close>

theorem initiator_is_requester:
  assumes acc: "accepted init es"
    and g: "mapGet (activeUsers (exec init es)) sid = Some cu"
    and paired: "inChat (heap (fst (step (exec init es) (sid, FindPartner ins))) cu)"
  shows "\<exists>pa. pa \<in> set (waitingUsers (exec init es)) \<and>
           mapGet (activeUsers (exec init es)) (socketId (heap (exec init es) pa)) = Some pa \<and>
           socketId (heap (exec init es) pa) \<noteq> sid \<and>
           partnerId (heap (fst (step (exec init es) (sid, FindPartner ins))) cu) =
             Some (idU (heap (exec init es) pa)) \<and>
           partnerId (heap (fst (step (exec init es) (sid, FindPartner ins))) pa) =
             Some (idU (heap (exec init es) cu)) \<and>
           snd (step (exec init es) (sid, FindPartner ins)) =
             [(sid, ''partner-found'',
               Obj [(''partnerId'', Str (idU (heap (exec init es) pa))),
                    (''roomId'', Str (roomLabel (idU (heap (exec init es) cu))
                                        (idU (heap (exec init es) pa)))),
                    (''initiator'', Bool True)]),
              (socketId (heap (exec init es) pa), ''partner-found'',
               Obj [(''partnerId'', Str (idU (heap (exec init es) cu))),
                    (''roomId'', Str (roomLabel (idU (heap (exec init es) cu))
                                        (idU (heap (exec init es) pa)))),
                    (''initiator'', Bool False)])]"
proof -
  define s where "s = exec init es"
  let ?h2 = "(heap s)(cu := (heap s cu)\<lparr>interests := ins, inChat := False\<rparr>)"
  let ?w1 = "removeFromWaiting (heap s) (idU (heap s cu)) (waitingUsers s)"
  from wf_exec[OF wf_init acc] have w: "wf s" by (simp add: s_def)
  from g have g': "mapGet (activeUsers s) sid = Some cu" by (simp add: s_def)
  from paired have pr: "inChat (heap (fst (onFindPartner s sid ins)) cu)" by (simp add: s_def)
  obtain po w' where f: "findPartner ?h2 cu ?w1 = (po, w')" by (cases "findPartner ?h2 cu ?w1")
  have "po \<noteq> None"
  proof
    assume "po = None"
    with f onFindPartner_wait[OF g', of ins w'] pr show False by simp
  qed
  then obtain pa where f': "findPartner ?h2 cu ?w1 = (Some pa, w')" using f by auto
  have g1: "\<And>a. a \<in> set ?w1 \<Longrightarrow> a \<noteq> cu"
    using removeFromWaiting_gone[OF wf_pool_ids[OF w]] by blast
  from findPartner_Some[OF f'] have p: "pa \<in> set ?w1" by blast
  with g1 have ne: "pa \<noteq> cu" by blast
  from p set_removeFromWaiting[of "heap s" "idU (heap s cu)" "waitingUsers s"]
  have pw: "pa \<in> set (waitingUsers s)" by blast
  with w have "pa \<in> set (regAddrs s)" by (auto simp: wf_def)
  from wf_socket[OF w this]
  have ps: "mapGet (activeUsers s) (socketId (heap s pa)) = Some pa"
    "socketId (heap s pa) \<in> set (sockets s)" by blast+
  from ps(1) g' ne have sn: "socketId (heap s pa) \<noteq> sid" by auto
  note st = onFindPartner_match_state[OF g' f' ne]
  note out = onFindPartner_match_out[OF g' f' ne]
  have h1: "partnerId (heap (fst (onFindPartner s sid ins)) cu) = Some (idU (heap s pa))"
    using st ne by simp
  have h2: "partnerId (heap (fst (onFindPartner s sid ins)) pa) = Some (idU (heap s cu))"
    using st ne by simp
  from pw ps sn h1 h2 out show ?thesis
    unfolding s_def[symmetric] by (intro exI[of _ pa]) simp
qed

theorem initiator_is_requester_witness:
  "accepted init (take 3 pairedAB) \<and>
   mapGet (activeUsers (exec init (take 3 pairedAB))) ''sB'' = Some 1 \<and>
   inChat (heap (fst (step (exec init (take 3 pairedAB)) (''sB'', FindPartner None))) 1) \<and>
   snd (step (exec init (take 3 pairedAB)) (''sB'', FindPartner None)) =
     [(''sB'', ''partner-found'',
       Obj [(''partnerId'', Str ''uA''), (''roomId'', Str ''room-uB-uA''),
            (''initiator'', Bool True)]),
      (''sA'', ''partner-found'',
       Obj [(''partnerId'', Str ''uB''), (''roomId'', Str ''room-uB-uA''),
            (''initiator'', Bool False)])]"
proof -
  have a: "accepted init (take 3 pairedAB)" by code_simp
  have g: "mapGet (activeUsers (exec init (take 3 pairedAB))) ''sB'' = Some 1" by code_simp
  have i: "inChat (heap (fst (step (exec init (take 3 pairedAB)) (''sB'', FindPartner None))) 1)"
    by code_simp
  have o: "snd (step (exec init (take 3 pairedAB)) (''sB'', FindPartner None)) =
     [(''sB'', ''partner-found'',
       Obj [(''partnerId'', Str ''uA''), (''roomId'', Str ''room-uB-uA''),
            (''initiator'', Bool True)]),
      (''sA'', ''partner-found'',
       Obj [(''partnerId'', Str ''uB''), (''roomId'', Str ''room-uB-uA''),
            (''initiator'', Bool False)])]"
    by code_simp
  from initiator_is_requester[OF a g i] a g i o show ?thesis by blast
qed

section \<open>Tearing a pairing down\<close>

lemma find_Some_mem: "find P xs = Some x \<Longrightarrow> x \<in> set xs \<and> P x"
  by (induction xs) (auto split: if_splits)

lemma partnerEntry_None_iff:
  "partnerEntry s cu = None \<longleftrightarrow>
     (\<forall>e\<in>set (activeUsers s). Some (idU (heap s (snd e))) \<noteq> partnerId (heap s cu))"
  by (auto simp: partnerEntry_def find_None_iff)

lemma partnerEntry_Some:
  assumes w: "wf s" and m: "(k, pa) \<in> set (activeUsers s)"
    and p: "Some (idU (heap s pa)) = partnerId (heap s cu)"
  shows "partnerEntry s cu = Some (k, pa)"
proof -
  from m p have "partnerEntry s cu \<noteq> None"
    unfolding partnerEntry_None_iff by force
  then obtain e where e: "partnerEntry s cu = Some e" by auto
  then have em: "e \<in> set (activeUsers s)"
    and ep: "Some (idU (heap s (snd e))) = partnerId (heap s cu)"
    unfolding partnerEntry_def by (auto dest: find_Some_mem)
  from ep p have "Some (idU (heap s (snd e))) = Some (idU (heap s pa))" by (rule trans_sym)
  then have ie: "idU (heap s (snd e)) = idU (heap s pa)" by (simp only: option.inject)
  from w have inj: "inj_on (\<lambda>a. idU (heap s a)) (set (regAddrs s))"
    by (simp add: wf_def distinct_map)
  from em m have "snd e \<in> set (regAddrs s)" "pa \<in> set (regAddrs s)"
    by (force simp: regAddrs_def)+
  with inj ie have se: "snd e = pa" unfolding inj_on_def by blast
  from w em have "socketId (heap s (snd e)) = fst e" by (simp add: wf_def)
  moreover from w m have "socketId (heap s pa) = k" by (auto simp: wf_def)
  ultimately have "fst e = k" using se by simp
  with se e show ?thesis by (cases e) simp
qed

lemma onSkipPartner_none:
  "mapGet (activeUsers s) sid = Some cu \<Longrightarrow> \<not> truthy (partnerId (heap s cu)) \<Longrightarrow>
     onSkipPartner s sid = (s, [])"
  by (simp add: onSkipPartner_def)

lemma onSkipPartner_stale:
  "mapGet (activeUsers s) sid = Some cu \<Longrightarrow> truthy (partnerId (heap s cu)) \<Longrightarrow>
   partnerEntry s cu = None \<Longrightarrow>
     onSkipPartner s sid =
       (s\<lparr>heap := (heap s)(cu := (heap s cu)\<lparr>partnerId := None, inChat := False\<rparr>)\<rparr>,
        [(sid, ''chat-ended'', NoArg)])"
  by (simp add: onSkipPartner_def setUser_def socketEmit_def)

lemma onSkipPartner_live:
  "mapGet (activeUsers s) sid = Some cu \<Longrightarrow> truthy (partnerId (heap s cu)) \<Longrightarrow>
   partnerEntry s cu = Some (k, pa) \<Longrightarrow> pa \<noteq> cu \<Longrightarrow> k \<in> set (sockets s) \<Longrightarrow>
     onSkipPartner s sid =
       (s\<lparr>heap := (heap s)(pa := (heap s pa)\<lparr>partnerId := None, inChat := False\<rparr>,
                            cu := (heap s cu)\<lparr>partnerId := None, inChat := False\<rparr>)\<rparr>,
        [(k, ''partner-disconnected'', NoArg), (sid, ''chat-ended'', NoArg)])"
  by (simp add: onSkipPartner_def setUser_def socketEmit_def socketEmitOpt_def)

lemma ioEmit_names: "\<forall>d\<in>set (ioEmit s name p). fst (snd d) = name"
  by (simp add: ioEmit_def)

lemma onDisconnect_quiet:
  assumes g: "mapGet (activeUsers s) sid = Some cu"
    and n: "\<not> truthy (partnerId (heap s cu)) \<or> partnerEntry s cu = None"
  shows "\<exists>t p. snd (onDisconnect s sid) = ioEmit t ''online-count'' p"
proof -
  have p: "partnerEntry (s\<lparr>sockets := x, rooms := y\<rparr>) c = partnerEntry s c" for x y c
    by (simp add: partnerEntry_def)
  from g n show ?thesis
    by (auto simp: onDisconnect_def Let_def transportDisconnect_def p)
qed

lemma onDisconnect_notify:
  assumes g: "mapGet (activeUsers s) sid = Some cu"
    and t: "truthy (partnerId (heap s cu))" and e: "partnerEntry s cu = Some (k, pa)"
    and k: "k \<noteq> sid" "k \<in> set (sockets s)"
  shows "\<exists>t p. snd (onDisconnect s sid) =
           (k, ''partner-disconnected'', NoArg) # ioEmit t ''online-count'' p"
proof -
  have p: "partnerEntry (s\<lparr>sockets := x, rooms := y\<rparr>) c = partnerEntry s c" for x y c
    by (simp add: partnerEntry_def)
  from g t e k show ?thesis
    by (auto simp: onDisconnect_def Let_def transportDisconnect_def p socketEmitOpt_def)
qed

lemma filter_ioEmit:
  "filter (\<lambda>d. fst (snd d) = ''partner-disconnected'') (ioEmit t ''online-count'' p) = []"
  by (simp add: ioEmit_def filter_empty_conv)

text \<open>
  Claim C7. For a registered User after any run: with no partner, skip-partner changes
  nothing and delivers nothing, and disconnect changes no User and delivers only the online
  count. With a \<open>partnerId\<close> that no registered User carries, skip-partner clears the
  User's own fields and delivers only \<open>chat-ended\<close> to it, and disconnect changes no User
  and delivers only the online count. With the partner registered, skip-partner clears
  \<open>partnerId\<close> and \<open>inChat\<close> of both and delivers \<open>partner-disconnected\<close> once, to
  the partner's connection, then \<open>chat-ended\<close> to the requester; disconnect clears the
  partner, drops the leaving User from the registry and the waiting pool, so that its
  record is out of reach, and delivers \<open>partner-disconnected\<close> exactly once, to the
  partner's connection. The handlers guard every lookup, so the
  model has no failing branch: each case yields a state and deliveries.
\<close>

theorem teardown_pairing:
  assumes acc: "accepted init es" and s: "s = exec init es"
    and g: "mapGet (activeUsers s) sid = Some cu"
  shows
    "(\<not> truthy (partnerId (heap s cu)) \<longrightarrow>
        step s (sid, SkipPartner) = (s, []) \<and>
        heap (fst (step s (sid, Disconnect))) = heap s \<and>
        (\<forall>d\<in>set (snd (step s (sid, Disconnect))). fst (snd d) = ''online-count'')) \<and>
     (truthy (partnerId (heap s cu)) \<and>
      (\<forall>e\<in>set (activeUsers s). Some (idU (heap s (snd e))) \<noteq> partnerId (heap s cu)) \<longrightarrow>
        step s (sid, SkipPartner) =
          (s\<lparr>heap := (heap s)(cu := (heap s cu)\<lparr>partnerId := None, inChat := False\<rparr>)\<rparr>,
           [(sid, ''chat-ended'', NoArg)]) \<and>
        heap (fst (step s (sid, Disconnect))) = heap s \<and>
        (\<forall>d\<in>set (snd (step s (sid, Disconnect))). fst (snd d) = ''online-count'')) \<and>
     (\<forall>k pa. (k, pa) \<in> set (activeUsers s) \<and> Some (idU (heap s pa)) = partnerId (heap s cu) \<longrightarrow>
        k \<noteq> sid \<and> pa \<noteq> cu \<and>
        step s (sid, SkipPartner) =
          (s\<lparr>heap := (heap s)(pa := (heap s pa)\<lparr>partnerId := None, inChat := False\<rparr>,
                               cu := (heap s cu)\<lparr>partnerId := None, inChat := False\<rparr>)\<rparr>,
           [(k, ''partner-disconnected'', NoArg), (sid, ''chat-ended'', NoArg)]) \<and>
        heap (fst (step s (sid, Disconnect))) =
          (heap s)(pa := (heap s pa)\<lparr>partnerId := None, inChat := False\<rparr>) \<and>
        mapGet (activeUsers (fst (step s (sid, Disconnect)))) sid = None \<and>
        cu \<notin> set (regAddrs (fst (step s (sid, Disconnect)))) \<and>
        cu \<notin> set (waitingUsers (fst (step s (sid, Disconnect)))) \<and>
        filter (\<lambda>d. fst (snd d) = ''partner-disconnected'') (snd (step s (sid, Disconnect))) =
          [(k, ''partner-disconnected'', NoArg)])"
proof -
  from wf_exec[OF wf_init acc] s have w: "wf s" by simp
  have A: "step s (sid, SkipPartner) = (s, []) \<and>
        heap (fst (step s (sid, Disconnect))) = heap s \<and>
        (\<forall>d\<in>set (snd (step s (sid, Disconnect))). fst (snd d) = ''online-count'')"
    if n: "\<not> truthy (partnerId (heap s cu))"
  proof -
    from onDisconnect_quiet[OF g] n obtain t p where
      o: "snd (onDisconnect s sid) = ioEmit t ''online-count'' p" by blast
    from onDisconnect_state[OF g] n have h: "heap (fst (onDisconnect s sid)) = heap s" by simp
    from o h onSkipPartner_none[OF g n] ioEmit_names[of t "''online-count''" p]
    show ?thesis by simp
  qed
  have B: "step s (sid, SkipPartner) =
          (s\<lparr>heap := (heap s)(cu := (heap s cu)\<lparr>partnerId := None, inChat := False\<rparr>)\<rparr>,
           [(sid, ''chat-ended'', NoArg)]) \<and>
        heap (fst (step s (sid, Disconnect))) = heap s \<and>
        (\<forall>d\<in>set (snd (step s (sid, Disconnect))). fst (snd d) = ''online-count'')"
    if t: "truthy (partnerId (heap s cu))"
      and n: "\<forall>e\<in>set (activeUsers s). Some (idU (heap s (snd e))) \<noteq> partnerId (heap s cu)"
  proof -
    from n have pe: "partnerEntry s cu = None" by (simp add: partnerEntry_None_iff)
    from onDisconnect_quiet[OF g] pe obtain t' p where
      o: "snd (onDisconnect s sid) = ioEmit t' ''online-count'' p" by blast
    from onDisconnect_state[OF g] pe have h: "heap (fst (onDisconnect s sid)) = heap s" by simp
    from o h onSkipPartner_stale[OF g t pe] ioEmit_names[of t' "''online-count''" p]
    show ?thesis by simp
  qed
  have C: "k \<noteq> sid \<and> pa \<noteq> cu \<and>
        step s (sid, SkipPartner) =
          (s\<lparr>heap := (heap s)(pa := (heap s pa)\<lparr>partnerId := None, inChat := False\<rparr>,
                               cu := (heap s cu)\<lparr>partnerId := None, inChat := False\<rparr>)\<rparr>,
           [(k, ''partner-disconnected'', NoArg), (sid, ''chat-ended'', NoArg)]) \<and>
        heap (fst (step s (sid, Disconnect))) =
          (heap s)(pa := (heap s pa)\<lparr>partnerId := None, inChat := False\<rparr>) \<and>
        mapGet (activeUsers (fst (step s (sid, Disconnect)))) sid = None \<and>
        cu \<notin> set (regAddrs (fst (step s (sid, Disconnect)))) \<and>
        cu \<notin> set (waitingUsers (fst (step s (sid, Disconnect)))) \<and>
        filter (\<lambda>d. fst (snd d) = ''partner-disconnected'') (snd (step s (sid, Disconnect))) =
          [(k, ''partner-disconnected'', NoArg)]"
    if m: "(k, pa) \<in> set (activeUsers s)"
      and p: "Some (idU (heap s pa)) = partnerId (heap s cu)" for k pa
  proof -
    from w m have ks: "k \<in> set (sockets s)" and nid: "idU (heap s pa) \<noteq> []"
      and dk: "distinct (map fst (activeUsers s))"
      by (auto simp: wf_def)
    from nid p[symmetric] have t: "truthy (partnerId (heap s cu))"
      by (simp add: truthy_def)
    from wf_registered[OF w g] w
    have "partnerId (heap s cu) \<noteq> Some (idU (heap s cu))"
      by (auto simp: wf_def regAddrs_def)
    with p have ne: "pa \<noteq> cu" by auto
    from dk m have "mapGet (activeUsers s) k = Some pa" by (simp add: mapGet_def)
    with g ne have kn: "k \<noteq> sid" by auto
    note pe = partnerEntry_Some[OF w m p]
    from onDisconnect_notify[OF g t pe kn ks] obtain t' q where
      o: "snd (onDisconnect s sid) = (k, ''partner-disconnected'', NoArg) # ioEmit t' ''online-count'' q"
      by blast
    from onDisconnect_state[OF g] t pe
    have h: "heap (fst (onDisconnect s sid)) =
          (heap s)(pa := (heap s pa)\<lparr>partnerId := None, inChat := False\<rparr>)"
      and au: "activeUsers (fst (onDisconnect s sid)) = mapDelete (activeUsers s) sid"
      by (simp_all add: setUser_def)
    have gone: "mapGet (activeUsers (fst (onDisconnect s sid))) sid = None"
      unfolding au mapGet_None mapDelete_def by auto
    from wf_onDisconnect[OF w, of sid] have w': "wf (fst (onDisconnect s sid))" .
    have nr: "cu \<notin> set (regAddrs (fst (onDisconnect s sid)))"
    proof
      assume "cu \<in> set (regAddrs (fst (onDisconnect s sid)))"
      then obtain k' where k': "(k', cu) \<in> set (activeUsers s)" "k' \<noteq> sid"
        unfolding regAddrs_def au mapDelete_def by auto
      from dk k'(1) have "mapGet (activeUsers s) k' = Some cu" by (simp add: mapGet_def)
      moreover from w k'(1) have "socketId (heap s cu) = k'" by (auto simp: wf_def)
      moreover from w mapGet_mem[OF g] have "socketId (heap s cu) = sid" by (auto simp: wf_def)
      ultimately show False using k'(2) by simp
    qed
    from w' nr have nw: "cu \<notin> set (waitingUsers (fst (onDisconnect s sid)))"
      by (auto simp: wf_def)
    from o have f: "filter (\<lambda>d. fst (snd d) = ''partner-disconnected'') (snd (onDisconnect s sid)) =
          [(k, ''partner-disconnected'', NoArg)]"
      by (simp add: filter_ioEmit)
    from kn ne onSkipPartner_live[OF g t pe ne ks] h gone nr nw f show ?thesis by simp
  qed
  from A B C show ?thesis by blast
qed

theorem teardown_pairing_witness:
  "accepted init pairedAB \<and>
   mapGet (activeUsers (exec init pairedAB)) ''sA'' = Some 0 \<and>
   (''sB'', 1) \<in> set (activeUsers (exec init pairedAB)) \<and>
   Some (idU (heap (exec init pairedAB) 1)) = partnerId (heap (exec init pairedAB) 0) \<and>
   snd (step (exec init pairedAB) (''sA'', SkipPartner)) =
     [(''sB'', ''partner-disconnected'', NoArg), (''sA'', ''chat-ended'', NoArg)] \<and>
   filter (\<lambda>d. fst (snd d) = ''partner-disconnected'')
     (snd (step (exec init pairedAB) (''sA'', Disconnect))) =
     [(''sB'', ''partner-disconnected'', NoArg)] \<and>
   mapGet (activeUsers (exec init (take 2 pairedAB))) ''sA'' = Some 0 \<and>
   \<not> truthy (partnerId (heap (exec init (take 2 pairedAB)) 0)) \<and>
   step (exec init (take 2 pairedAB)) (''sA'', SkipPartner) = (exec init (take 2 pairedAB), [])"
proof -
  have a: "accepted init pairedAB" by code_simp
  have g: "mapGet (activeUsers (exec init pairedAB)) ''sA'' = Some 0" by code_simp
  have m: "(''sB'', 1) \<in> set (activeUsers (exec init pairedAB))" by code_simp
  have p: "Some (idU (heap (exec init pairedAB) 1)) = partnerId (heap (exec init pairedAB) 0)"
    by code_simp
  have a2: "accepted init (take 2 pairedAB)" by code_simp
  have g2: "mapGet (activeUsers (exec init (take 2 pairedAB))) ''sA'' = Some 0" by code_simp
  have n2: "\<not> truthy (partnerId (heap (exec init (take 2 pairedAB)) 0))" by code_simp
  note c = teardown_pairing[OF a refl g, THEN conjunct2, THEN conjunct2, THEN spec, THEN spec,
      THEN mp, OF conjI[OF m p]]
  from c have r1: "snd (step (exec init pairedAB) (''sA'', SkipPartner)) =
       [(''sB'', ''partner-disconnected'', NoArg), (''sA'', ''chat-ended'', NoArg)]"
    by simp
  from c have r1': "filter (\<lambda>d. fst (snd d) = ''partner-disconnected'')
       (snd (step (exec init pairedAB) (''sA'', Disconnect))) =
       [(''sB'', ''partner-disconnected'', NoArg)]"
    by (elim conjE)
  note n = teardown_pairing[OF a2 refl g2, THEN conjunct1, THEN mp, OF n2]
  from n have r2: "step (exec init (take 2 pairedAB)) (''sA'', SkipPartner) = (exec init (take 2 pairedAB), [])"
    by (elim conjE)
  from a g m p r1 r1' g2 n2 r2 show ?thesis by (intro conjI)
qed

section \<open>What the payloads carry\<close>

text \<open>
  Claim C9, as stated, fails for webrtc-signal: the handler writes \<open>socket.id\<close> into the
  payload it relays. After A and B are paired, A's signal reaches B's connection with
  \<open>from\<close> set to the \<open>socketId\<close> of A's User.
\<close>

theorem signal_carries_socket_id:
  "mapGet (activeUsers (exec init pairedAB)) ''sA'' = Some 0 \<and>
   socketId (heap (exec init pairedAB) 0) = ''sA'' \<and>
   snd (step (exec init pairedAB) (''sA'', WebrtcSignal ''sig'' ''room-uB-uA'')) =
     [(''sB'', ''webrtc-signal'', Obj [(''signal'', Client ''sig''), (''from'', Str ''sA'')])]"
  by code_simp

lemma strs_onCancelSearch:
  "d \<in> set (snd (onCancelSearch s sid)) \<Longrightarrow> payloadStrs (snd (snd d)) = []"
  by (auto simp: onCancelSearch_def socketEmit_def split: option.splits)

lemma strs_onSkipPartner:
  "d \<in> set (snd (onSkipPartner s sid)) \<Longrightarrow> payloadStrs (snd (snd d)) = []"
  by (auto simp: onSkipPartner_def socketEmit_def socketEmitOpt_def Let_def
      split: option.splits if_splits prod.splits)

lemma strs_ioEmit_count:
  "d \<in> set (ioEmit t name (Arg (Num n))) \<Longrightarrow> payloadStrs (snd (snd d)) = []"
  by (auto simp: ioEmit_def)

lemma strs_onDisconnect:
  "d \<in> set (snd (onDisconnect s sid)) \<Longrightarrow> payloadStrs (snd (snd d)) = []"
  by (auto simp: onDisconnect_def socketEmitOpt_def Let_def ioEmit_def
      split: option.splits if_splits prod.splits)

lemma strs_onConnection:
  "d \<in> set (snd (onConnection s sid userId)) \<Longrightarrow> x \<in> set (payloadStrs (snd (snd d))) \<Longrightarrow>
     x = userId"
  by (auto simp: onConnection_def socketEmit_def Let_def ioEmit_def)

lemma strs_onSendMessage:
  "d \<in> set (snd (onSendMessage s sid message roomId msgId now)) \<Longrightarrow>
   x \<in> set (payloadStrs (snd (snd d))) \<Longrightarrow>
     x = msgId \<or> (\<exists>cu. mapGet (activeUsers s) sid = Some cu \<and> x = idU (heap s cu))"
  by (auto simp: onSendMessage_def ioTo_def split: option.splits)

lemma strs_onRelay:
  "d \<in> set (snd (onRelay s sid ev)) \<Longrightarrow> x \<in> set (payloadStrs (snd (snd d))) \<Longrightarrow>
     (\<exists>signal roomId. ev = WebrtcSignal signal roomId) \<and> x = sid \<and> fst (snd d) = ''webrtc-signal''"
  by (cases ev) (auto simp: onRelay_def socketTo_def)

lemma strs_webrtc:
  "d \<in> set (snd (onRelay s sid (WebrtcSignal signal roomId))) \<Longrightarrow>
     payloadStrs (snd (snd d)) = [sid]"
  by (auto simp: onRelay_def socketTo_def)

lemma userId_registered:
  "mapGet (activeUsers s) sid = Some cu \<Longrightarrow> idU (heap s cu) \<in> set (userIds s)"
  by (force simp: userIds_def dest: mapGet_mem)

lemma strs_onFindPartner:
  assumes w: "wf s" and d: "d \<in> set (snd (onFindPartner s sid ins))"
    and x: "x \<in> set (payloadStrs (snd (snd d)))"
  shows "x \<in> set (userIds s) \<or> (\<exists>a\<in>set (userIds s). \<exists>b\<in>set (userIds s). x = roomLabel a b)"
proof (cases "mapGet (activeUsers s) sid")
  case None
  with d show ?thesis by (simp add: onFindPartner_unregistered)
next
  case (Some cu)
  let ?h2 = "(heap s)(cu := (heap s cu)\<lparr>interests := ins, inChat := False\<rparr>)"
  let ?w1 = "removeFromWaiting (heap s) (idU (heap s cu)) (waitingUsers s)"
  obtain po w' where f: "findPartner ?h2 cu ?w1 = (po, w')" by (cases "findPartner ?h2 cu ?w1")
  show ?thesis
  proof (cases po)
    case None
    with f onFindPartner_wait[OF Some, of ins w'] d x show ?thesis by simp
  next
    case (Some pa)
    with f have f': "findPartner ?h2 cu ?w1 = (Some pa, w')" by simp
    have g1: "\<And>a. a \<in> set ?w1 \<Longrightarrow> a \<noteq> cu"
      using removeFromWaiting_gone[OF wf_pool_ids[OF w]] by blast
    from findPartner_Some[OF f'] have p: "pa \<in> set ?w1" by blast
    with g1 have ne: "pa \<noteq> cu" by blast
    from p set_removeFromWaiting[of "heap s" "idU (heap s cu)" "waitingUsers s"] w
    have "pa \<in> set (regAddrs s)" by (auto simp: wf_def)
    then have ip: "idU (heap s pa) \<in> set (userIds s)" by (simp add: userIds_regAddrs)
    have ic: "idU (heap s cu) \<in> set (userIds s)"
      by (rule userId_registered[OF \<open>mapGet (activeUsers s) sid = Some cu\<close>])
    from onFindPartner_match_out[OF \<open>mapGet (activeUsers s) sid = Some cu\<close> f' ne] d x
    have "x = idU (heap s pa) \<or> x = idU (heap s cu) \<or>
          x = roomLabel (idU (heap s cu)) (idU (heap s pa))"
      by (auto split: if_splits)
    with ip ic show ?thesis by blast
  qed
qed

lemma userIds_onConnection:
  assumes w: "wf s" and f: "sid \<notin> set (sockets s)"
  shows "userId \<in> set (userIds (fst (onConnection s sid userId)))"
proof -
  from w f have fresh: "sid \<notin> fst ` set (activeUsers s)" by (auto simp: wf_def)
  from onConnection_state[OF f, of userId] mapSet_fresh[OF fresh]
  have "activeUsers (fst (onConnection s sid userId)) = activeUsers s @ [(sid, nextAddr s)]"
    "idU (heap (fst (onConnection s sid userId)) (nextAddr s)) = userId"
    by simp_all
  then show ?thesis by (simp add: userIds_def)
qed

text \<open>
  Claim C9, amended. After any run, in every delivery made for a webrtc-signal event the
  only string the server wrote into the payload is the sender's socket id (the \<open>from\<close>
  field). In every delivery made for any other event, each string the server wrote into
  the payload is the id of a User registered before or after the event, a room label built
  from two registered Users' ids, or the message id generated for a send-message; no field
  is read from a socket id.
\<close>

theorem payload_strings:
  assumes acc: "accepted init es" and s: "s = exec init es" and env: "envOk s (sid, ev)"
    and d: "d \<in> set (snd (step s (sid, ev)))"
  shows "(\<forall>signal roomId. ev = WebrtcSignal signal roomId \<longrightarrow>
            fst (snd d) = ''webrtc-signal'' \<and> payloadStrs (snd (snd d)) = [sid]) \<and>
         ((\<forall>signal roomId. ev \<noteq> WebrtcSignal signal roomId) \<longrightarrow>
            (\<forall>x\<in>set (payloadStrs (snd (snd d))).
               x \<in> set (userIds s) \<or>
               x \<in> set (userIds (fst (step s (sid, ev)))) \<or>
               (\<exists>a\<in>set (userIds s). \<exists>b\<in>set (userIds s). x = roomLabel a b) \<or>
               (\<exists>message roomId now. ev = SendMessage message roomId x now)))"
proof -
  from wf_exec[OF wf_init acc] s have w: "wf s" by simp
  have A: "fst (snd d) = ''webrtc-signal'' \<and> payloadStrs (snd (snd d)) = [sid]"
    if e: "ev = WebrtcSignal signal roomId" for signal roomId
  proof -
    from d e have m: "d \<in> set (snd (onRelay s sid (WebrtcSignal signal roomId)))" by simp
    from strs_webrtc[OF m] have l: "payloadStrs (snd (snd d)) = [sid]" .
    then have "sid \<in> set (payloadStrs (snd (snd d)))" by simp
    from strs_onRelay[OF m this] l show ?thesis by simp
  qed
  have B: "x \<in> set (userIds s) \<or>
           x \<in> set (userIds (fst (step s (sid, ev)))) \<or>
           (\<exists>a\<in>set (userIds s). \<exists>b\<in>set (userIds s). x = roomLabel a b) \<or>
           (\<exists>message roomId now. ev = SendMessage message roomId x now)"
    if n: "\<forall>signal roomId. ev \<noteq> WebrtcSignal signal roomId"
      and x: "x \<in> set (payloadStrs (snd (snd d)))" for x
  proof (cases "relayOf sid ev")
    case (Some r)
    with d have "d \<in> set (snd (onRelay s sid ev))" by (simp add: step_relay)
    from strs_onRelay[OF this x] n show ?thesis by blast
  next
    case None
    show ?thesis
    proof (cases ev)
      case (Connection userId)
      with env have f: "sid \<notin> set (sockets s)" by simp
      from Connection d x have "x = userId" by (auto dest: strs_onConnection)
      with userIds_onConnection[OF w f, of userId] Connection show ?thesis by simp
    next
      case (FindPartner ins)
      with d x strs_onFindPartner[OF w, of d sid ins x] show ?thesis by auto
    next
      case CancelSearch
      with d x show ?thesis by (auto dest: strs_onCancelSearch)
    next
      case (SendMessage message roomId msgId now)
      with d x strs_onSendMessage[of d s sid message roomId msgId now x]
      show ?thesis by (auto dest: userId_registered)
    next
      case SkipPartner
      with d x show ?thesis by (auto dest: strs_onSkipPartner)
    next
      case Disconnect
      with d x show ?thesis by (auto dest: strs_onDisconnect)
    qed (use None in simp_all)
  qed
  from A B show ?thesis by blast
qed

theorem payload_strings_witness:
  "accepted init pairedAB \<and>
   envOk (exec init pairedAB) (''sB'', SendMessage ''hi'' ''room-uB-uA'' ''m1'' 0) \<and>
   (''sA'', ''receive-message'',
     Obj [(''id'', Str ''m1''), (''senderId'', Str ''uB''), (''content'', Client ''hi''),
          (''timestamp'', Date 0)])
     \<in> set (snd (step (exec init pairedAB) (''sB'', SendMessage ''hi'' ''room-uB-uA'' ''m1'' 0))) \<and>
   userIds (exec init pairedAB) = [''uA'', ''uB''] \<and>
   payloadStrs (Obj [(''id'', Str ''m1''), (''senderId'', Str ''uB''), (''content'', Client ''hi''),
                     (''timestamp'', Date 0)]) = [''m1'', ''uB''] \<and>
   (''uB'' \<in> set (userIds (exec init pairedAB)) \<or>
    ''uB'' \<in> set (userIds (fst (step (exec init pairedAB)
                                 (''sB'', SendMessage ''hi'' ''room-uB-uA'' ''m1'' 0)))) \<or>
    (\<exists>a\<in>set (userIds (exec init pairedAB)). \<exists>b\<in>set (userIds (exec init pairedAB)).
        ''uB'' = roomLabel a b) \<or>
    (\<exists>message roomId now.
        SendMessage ''hi'' ''room-uB-uA'' ''m1'' 0 = SendMessage message roomId ''uB'' now))"
proof -
  have a: "accepted init pairedAB" by code_simp
  have e: "envOk (exec init pairedAB) (''sB'', SendMessage ''hi'' ''room-uB-uA'' ''m1'' 0)" by simp
  have o: "snd (step (exec init pairedAB) (''sB'', SendMessage ''hi'' ''room-uB-uA'' ''m1'' 0)) =
     [(''sB'', ''receive-message'',
       Obj [(''id'', Str ''m1''), (''senderId'', Str ''uB''), (''content'', Client ''hi''),
            (''timestamp'', Date 0)]),
      (''sA'', ''receive-message'',
       Obj [(''id'', Str ''m1''), (''senderId'', Str ''uB''), (''content'', Client ''hi''),
            (''timestamp'', Date 0)])]"
    by code_simp
  then have m: "(''sA'', ''receive-message'',
     Obj [(''id'', Str ''m1''), (''senderId'', Str ''uB''), (''content'', Client ''hi''),
          (''timestamp'', Date 0)])
     \<in> set (snd (step (exec init pairedAB) (''sB'', SendMessage ''hi'' ''room-uB-uA'' ''m1'' 0)))"
    by simp
  have u: "userIds (exec init pairedAB) = [''uA'', ''uB'']" by code_simp
  have n: "\<forall>signal roomId. SendMessage ''hi'' ''room-uB-uA'' ''m1'' 0 \<noteq> WebrtcSignal signal roomId"
    by simp
  have l: "payloadStrs (Obj [(''id'', Str ''m1''), (''senderId'', Str ''uB''),
                             (''content'', Client ''hi''), (''timestamp'', Date 0)]) = [''m1'', ''uB'']"
    by simp
  have x: "''uB'' \<in> set (payloadStrs (Obj [(''id'', Str ''m1''), (''senderId'', Str ''uB''),
                             (''content'', Client ''hi''), (''timestamp'', Date 0)]))"
    unfolding l by simp
  note t = payload_strings[OF a refl e m, THEN conjunct2, THEN mp, OF n, unfolded snd_conv,
      THEN bspec, OF x]
  from a e m u l t show ?thesis by (intro conjI)
qed

section \<open>Events on a connection with no registered User\<close>

lemma keys_mapSet: "fst ` set (mapSet m k v) = insert k (fst ` set m)"
proof (induction m)
  case Nil
  show ?case by simp
next
  case (Cons e m)
  obtain k' v' where e: "e = (k', v')" by (cases e)
  show ?case unfolding e using Cons.IH
    by (cases "k' = k") (simp_all add: insert_commute)
qed

lemma fields_onFindPartner:
  assumes w: "wf s"
  shows "sockets (fst (onFindPartner s sid ins)) = sockets s \<and>
         activeUsers (fst (onFindPartner s sid ins)) = activeUsers s"
proof (cases "mapGet (activeUsers s) sid")
  case None
  then show ?thesis by (simp add: onFindPartner_unregistered)
next
  case (Some cu)
  let ?h2 = "(heap s)(cu := (heap s cu)\<lparr>interests := ins, inChat := False\<rparr>)"
  let ?w1 = "removeFromWaiting (heap s) (idU (heap s cu)) (waitingUsers s)"
  obtain po w' where f: "findPartner ?h2 cu ?w1 = (po, w')" by (cases "findPartner ?h2 cu ?w1")
  show ?thesis
  proof (cases po)
    case None
    with f onFindPartner_wait[OF Some, of ins w'] show ?thesis by simp
  next
    case (Some pa)
    with f have f': "findPartner ?h2 cu ?w1 = (Some pa, w')" by simp
    have g1: "\<And>a. a \<in> set ?w1 \<Longrightarrow> a \<noteq> cu"
      using removeFromWaiting_gone[OF wf_pool_ids[OF w]] by blast
    from findPartner_Some[OF f'] have "pa \<in> set ?w1" by blast
    with g1 have ne: "pa \<noteq> cu" by blast
    from onFindPartner_match_state[OF \<open>mapGet (activeUsers s) sid = Some cu\<close> f' ne]
    show ?thesis by simp
  qed
qed

lemma fields_onCancelSearch:
  "sockets (fst (onCancelSearch s sid)) = sockets s \<and>
   activeUsers (fst (onCancelSearch s sid)) = activeUsers s"
  by (simp add: onCancelSearch_def split: option.splits)

lemma fields_onSkipPartner:
  "sockets (fst (onSkipPartner s sid)) = sockets s \<and>
   activeUsers (fst (onSkipPartner s sid)) = activeUsers s"
proof (cases "mapGet (activeUsers s) sid")
  case None
  then show ?thesis by (simp add: onSkipPartner_def)
next
  case (Some cu)
  show ?thesis
  proof (cases "truthy (partnerId (heap s cu))")
    case False
    with Some show ?thesis by (simp add: onSkipPartner_none)
  next
    case True
    show ?thesis
    proof (cases "partnerEntry s cu")
      case None
      with Some True show ?thesis by (simp add: onSkipPartner_stale)
    next
      case (Some e)
      with \<open>mapGet (activeUsers s) sid = Some cu\<close> True show ?thesis
        by (cases e) (simp add: onSkipPartner_def setUser_def)
    qed
  qed
qed

lemma fields_onSendMessage:
  "fst (onSendMessage s sid message roomId msgId now) = s"
  by (simp add: onSendMessage_def split: option.splits)

lemma fields_onRelay: "fst (onRelay s sid ev) = s"
  by (simp add: onRelay_def split: option.splits prod.splits)

lemma live_onConnection:
  assumes q: "set (sockets s) \<subseteq> fst ` set (activeUsers s)" and f: "sid \<notin> set (sockets s)"
  shows "set (sockets (fst (onConnection s sid userId))) \<subseteq>
         fst ` set (activeUsers (fst (onConnection s sid userId)))"
  using q onConnection_state[OF f, of userId] keys_mapSet[of "activeUsers s" sid "nextAddr s"]
  by auto

lemma live_onDisconnect:
  assumes q: "set (sockets s) \<subseteq> fst ` set (activeUsers s)"
  shows "set (sockets (fst (onDisconnect s sid))) \<subseteq>
         fst ` set (activeUsers (fst (onDisconnect s sid)))"
proof (cases "mapGet (activeUsers s) sid")
  case None
  then have t: "mapGet (activeUsers (transportDisconnect sid s)) sid = None"
    by (simp add: transportDisconnect_def)
  have r: "fst (onDisconnect s sid) = transportDisconnect sid s"
    using t by (simp add: onDisconnect_def Let_def)
  from q show ?thesis unfolding r transportDisconnect_def by auto
next
  case (Some cu)
  from onDisconnect_state[OF Some]
  have a: "activeUsers (fst (onDisconnect s sid)) = mapDelete (activeUsers s) sid"
    and b: "sockets (fst (onDisconnect s sid)) = filter (\<lambda>r. r \<noteq> sid) (sockets s)"
    by (simp_all add: setUser_def split: option.splits)
  show ?thesis
  proof
    fix x assume "x \<in> set (sockets (fst (onDisconnect s sid)))"
    with b have x: "x \<noteq> sid" "x \<in> set (sockets s)" by simp_all
    with q obtain e where e: "e \<in> set (activeUsers s)" "fst e = x" by auto
    with x(1) have "e \<in> set (mapDelete (activeUsers s) sid)" by (simp add: mapDelete_def)
    with e(2) show "x \<in> fst ` set (activeUsers (fst (onDisconnect s sid)))"
      unfolding a by force
  qed
qed

lemma live_step:
  assumes w: "wf s" and q: "set (sockets s) \<subseteq> fst ` set (activeUsers s)" and e: "envOk s e"
  shows "set (sockets (fst (step s e))) \<subseteq> fst ` set (activeUsers (fst (step s e)))"
proof -
  obtain sid ev where p: "e = (sid, ev)" by (cases e)
  show ?thesis
  proof (cases "relayOf sid ev")
    case (Some r)
    with q p show ?thesis by (simp add: step_relay fields_onRelay)
  next
    case None
    then show ?thesis
      using q e p
      by (cases ev)
        (simp_all add: live_onConnection live_onDisconnect fields_onFindPartner[OF w]
          fields_onCancelSearch fields_onSkipPartner fields_onSendMessage)
  qed
qed

lemma live_exec:
  "wf s \<Longrightarrow> set (sockets s) \<subseteq> fst ` set (activeUsers s) \<Longrightarrow> accepted s es \<Longrightarrow>
     set (sockets (exec s es)) \<subseteq> fst ` set (activeUsers (exec s es))"
proof (induction es arbitrary: s)
  case Nil
  then show ?case by simp
next
  case (Cons e es)
  from Cons.prems have "wf (fst (step s e))"
    "set (sockets (fst (step s e))) \<subseteq> fst ` set (activeUsers (fst (step s e)))"
    "accepted (fst (step s e)) es"
    by (simp_all add: live_step wf_step)
  then show ?case using Cons.IH by simp
qed

lemma live_init: "set (sockets init) \<subseteq> fst ` set (activeUsers init)"
  by (simp add: init_def)

lemma guarded_handlers:
  assumes "mapGet (activeUsers s) sid = None"
  shows "step s (sid, FindPartner ins) = (s, []) \<and>
    step s (sid, CancelSearch) = (s, []) \<and>
    step s (sid, SendMessage message room msgId now) = (s, []) \<and>
    step s (sid, SkipPartner) = (s, [])"
  using assms
  by (simp add: onFindPartner_def onCancelSearch_def onSendMessage_def onSkipPartner_def)

text \<open>
  Claim C5. After any run, a connection with no registered User is not connected: the User
  is registered before any handler of its socket can run and is removed only by the
  socket's disconnect handler. An inbound event on such a connection is therefore handed
  to no handler: it changes no state and delivers nothing to any client. The handlers that
  look the User up (find-partner, cancel-search, send-message, skip-partner) would return
  at once without it; the relay handlers do no lookup of their own.
\<close>

theorem unknown_connection_silent:
  assumes acc: "accepted init es" and s: "s = exec init es"
    and u: "mapGet (activeUsers s) sid = None"
  shows "sid \<notin> set (sockets s) \<and>
         ((\<forall>userId. ev \<noteq> Connection userId) \<longrightarrow> dispatch s (sid, ev) = (s, [])) \<and>
         step s (sid, FindPartner ins) = (s, []) \<and>
         step s (sid, CancelSearch) = (s, []) \<and>
         step s (sid, SendMessage message room msgId now) = (s, []) \<and>
         step s (sid, SkipPartner) = (s, [])"
proof -
  from live_exec[OF wf_init live_init acc] s
  have "set (sockets s) \<subseteq> fst ` set (activeUsers s)" by simp
  moreover from u have "sid \<notin> fst ` set (activeUsers s)" by (simp add: mapGet_None)
  ultimately have c: "sid \<notin> set (sockets s)" by blast
  then have d: "(\<forall>userId. ev \<noteq> Connection userId) \<Longrightarrow> dispatch s (sid, ev) = (s, [])"
    by (cases ev) (simp_all add: dispatch_def)
  from c d guarded_handlers[OF u] show ?thesis by blast
qed

theorem unknown_connection_silent_witness:
  "accepted init lateSignal \<and>
   mapGet (activeUsers (exec init lateSignal)) ''sA'' = None \<and>
   ''sA'' \<notin> set (sockets (exec init lateSignal)) \<and>
   dispatch (exec init lateSignal) (''sA'', WebrtcSignal ''sig'' ''room-uB-uA'') =
     (exec init lateSignal, []) \<and>
   dispatch (exec init lateSignal) (''sA'', Disconnect) = (exec init lateSignal, []) \<and>
   step (exec init lateSignal) (''sA'', FindPartner None) = (exec init lateSignal, [])"
proof -
  have a: "accepted init lateSignal" by code_simp
  have u: "mapGet (activeUsers (exec init lateSignal)) ''sA'' = None" by code_simp
  have n1: "\<forall>userId. WebrtcSignal ''sig'' ''room-uB-uA'' \<noteq> Connection userId" by simp
  have n2: "\<forall>userId. Disconnect \<noteq> Connection userId" by simp
  note t1 = unknown_connection_silent[OF a refl u, of "WebrtcSignal ''sig'' ''room-uB-uA''" None]
  note t2 = unknown_connection_silent[OF a refl u, of Disconnect]
  note c = t1[THEN conjunct1]
  note d1 = t1[THEN conjunct2, THEN conjunct1, THEN mp, OF n1]
  note d2 = t2[THEN conjunct2, THEN conjunct1, THEN mp, OF n2]
  note f = t1[THEN conjunct2, THEN conjunct2, THEN conjunct1]
  from a u c d1 d2 f show ?thesis by (intro conjI)
qed

end
